theory Spec2Isabelle
  imports Main "HOL-Library.Word"
begin

section \<open>Errors and outcomes\<close>

text \<open>
  Every \<^verbatim>\<open>throw\<close> of \<^verbatim>\<open>Document.cpp\<close> is a \<open>FatalError\<close> carrying its message.
  \<open>LogAssertFailed\<close> is a failed \<^verbatim>\<open>LogAssertB\<close>; the three \<open>RingBuffer\<close> errors are the
  precondition violations of the ring buffer; \<open>NoCapacity\<close> is the capacity error of
  \<open>Ingestor::Add\<close>, which its callers may handle.

  A C++ exception leaves the object in the state it had when the exception was thrown, so
  an outcome carries the state in both cases: \<open>Returned d\<close> is a normal return with the
  object in state \<open>d\<close>, \<open>Threw e d\<close> is exception \<open>e\<close> leaving the object in state \<open>d\<close>.
\<close>

datatype error =
    FatalError string
  | LogAssertFailed
  | RingBufferFull
  | RingBufferEmpty
  | RingBufferIndex
  | NoCapacity

datatype 's outcome = Returned 's | Threw error 's

fun is_thrown :: "'s outcome \<Rightarrow> bool" where
  "is_thrown (Returned _) = False"
| "is_thrown (Threw _ _) = True"

fun outcome_state :: "'s outcome \<Rightarrow> 's" where
  "outcome_state (Returned s) = s"
| "outcome_state (Threw _ s) = s"


section \<open>RingBuffer\<close>

text \<open>
  Modelled from the spec: the class template \<^verbatim>\<open>RingBuffer\<close> (its header is not among the
  sources; \<^verbatim>\<open>Document.cpp\<close> only calls it). A fixed-capacity FIFO with
  \<open>0 \<le> count \<le> capacity\<close>: \<open>PushBack\<close> fails when \<open>count = capacity\<close>, \<open>PopFront\<close> fails
  when empty, \<open>[i]\<close> is the \<open>i\<close>-th element in FIFO order for \<open>i < count\<close>, \<open>Reset\<close> empties.
  The capacity is a compile-time constant of the absent \<^verbatim>\<open>Document.h\<close>; it is a field
  here, so that every theorem is stated for any capacity.

  \<^verbatim>\<open>new(m_ringBuffer.PushBack()) Term(...)\<close> reserves the slot and constructs the element
  in it; \<open>PushBack\<close> takes the constructed element.
\<close>

record 'a RingBuffer =
  rb_capacity :: nat
  rb_items :: "'a list"

text \<open>
  Modelled from the spec: a new ring buffer is empty; \<open>GetCount\<close> is the number of elements
  held, \<open>IsEmpty\<close> says that there is none, and \<open>Reset\<close> clears to empty whatever the state.
\<close>

definition RingBuffer_new :: "nat \<Rightarrow> 'a RingBuffer" where
  "RingBuffer_new cap = \<lparr>rb_capacity = cap, rb_items = []\<rparr>"

definition GetCount :: "'a RingBuffer \<Rightarrow> nat" where
  "GetCount rb = length (rb_items rb)"

definition IsEmpty :: "'a RingBuffer \<Rightarrow> bool" where
  "IsEmpty rb = (GetCount rb = 0)"

definition Reset :: "'a RingBuffer \<Rightarrow> 'a RingBuffer" where
  "Reset rb = rb\<lparr>rb_items := []\<rparr>"

text \<open>
  Modelled from the spec: \<open>PushBack\<close> fails (a fatal precondition violation) if
  \<open>count = capacity\<close> and otherwise appends the new element; \<open>PopFront\<close> removes the oldest
  element and fails if there is none; \<open>[i]\<close> reads the \<open>i\<close>-th element for \<open>i < count\<close>
  (reading past the end is an error of its own here).
\<close>

definition PushBack :: "'a RingBuffer \<Rightarrow> 'a \<Rightarrow> error + 'a RingBuffer" where
  "PushBack rb x =
     (if GetCount rb = rb_capacity rb then Inl RingBufferFull
      else Inr (rb\<lparr>rb_items := rb_items rb @ [x]\<rparr>))"

definition PopFront :: "'a RingBuffer \<Rightarrow> error + 'a RingBuffer" where
  "PopFront rb =
     (case rb_items rb of
        [] \<Rightarrow> Inl RingBufferEmpty
      | _ # rest \<Rightarrow> Inr (rb\<lparr>rb_items := rest\<rparr>))"

definition At :: "'a RingBuffer \<Rightarrow> nat \<Rightarrow> error + 'a" where
  "At rb i = (if i < GetCount rb then Inr (rb_items rb ! i) else Inl RingBufferIndex)"


section \<open>Term\<close>

text \<open>
  The class \<^verbatim>\<open>Term\<close> is not among the sources. \<^verbatim>\<open>Document.cpp\<close> uses two of its operations,
  which are parameters of the model: the constructor
  \<^verbatim>\<open>Term(termText, streamId, docFreqTable)\<close> and \<^verbatim>\<open>term.AddTerm(other)\<close>, which turns
  the local \<open>term\<close> into the composition of \<open>term\<close> and \<open>other\<close> (here: returns it).
  \<open>'t\<close> is the type of terms, with the equality that \<^verbatim>\<open>m_terms.insert\<close> uses; \<open>'f\<close> is the
  document frequency table.
\<close>

record ('t, 'f) TermOps =
  Term_new :: "string \<Rightarrow> nat \<Rightarrow> 'f \<Rightarrow> 't"
  Term_AddTerm :: "'t \<Rightarrow> 't \<Rightarrow> 't"

subsection \<open>Term, as the specification describes it\<close>

text \<open>
  Modelled from the spec: the value type \<^verbatim>\<open>Term\<close> (\<^verbatim>\<open>Term.h\<close> is not among the sources): a
  text, the stream it came from and a frequency class looked up in the shared document
  frequency table. Composing two terms concatenates their texts in order and looks the
  class of the composed text up in the same table. Two terms are equal when text and
  class agree; the equality of the record also compares the stream id, which is 0 for every
  term that \<open>Document\<close> builds. It instantiates the parameter \<open>TermOps\<close> wherever a
  theorem is evaluated on concrete input.
\<close>

record SpecTerm =
  t_text :: string
  t_streamId :: nat
  t_frequencyClass :: nat

definition SpecTermOps :: "(string \<Rightarrow> nat) \<Rightarrow> (SpecTerm, string \<Rightarrow> nat) TermOps" where
  "SpecTermOps table =
     \<lparr>Term_new = (\<lambda>s sid f. \<lparr>t_text = s, t_streamId = sid, t_frequencyClass = f s\<rparr>),
      Term_AddTerm = (\<lambda>a b. \<lparr>t_text = t_text a @ t_text b,
                                t_streamId = t_streamId a,
                                t_frequencyClass = table (t_text a @ t_text b)\<rparr>)\<rparr>"


section \<open>Document\<close>

text \<open>
  The members of \<^verbatim>\<open>Document\<close> that \<^verbatim>\<open>Document.cpp\<close> reads and writes. \<open>cout\<close> is the
  sequence of terms that \<open>PostTerm\<close> prints to \<^verbatim>\<open>std::cout\<close>, one per call, in order: the
  observable record of what was emitted.
\<close>

record ('t, 'f) Document =
  m_maxGramSize :: nat
  m_docFreqTable :: 'f
  m_postingCount :: nat
  m_streamIsOpen :: bool
  m_currentStreamId :: nat
  m_ringBuffer :: "'t RingBuffer"
  m_terms :: "'t set"
  cout :: "'t list"

record 'f IConfiguration =
  GetMaxGramSize :: nat
  GetDocumentFrequencyTable :: 'f

text \<open>
  The constructor initialises \<open>m_maxGramSize\<close>, \<open>m_docFreqTable\<close>, \<open>m_postingCount\<close> and
  \<open>m_streamIsOpen\<close>; the term set and the ring buffer are default-constructed (empty).
  \<open>m_currentStreamId\<close> is left uninitialised: \<open>sid\<close> is whatever value it holds. \<open>cap\<close> is
  the ring buffer's capacity.
\<close>

definition Document_new :: "'f IConfiguration \<Rightarrow> nat \<Rightarrow> nat \<Rightarrow> ('t, 'f) Document" where
  "Document_new config cap sid =
     \<lparr>m_maxGramSize = GetMaxGramSize config,
      m_docFreqTable = GetDocumentFrequencyTable config,
      m_postingCount = 0,
      m_streamIsOpen = False,
      m_currentStreamId = sid,
      m_ringBuffer = RingBuffer_new cap,
      m_terms = {},
      cout = []\<rparr>"

definition GetPostingCount :: "('t, 'f) Document \<Rightarrow> nat" where
  "GetPostingCount d = card (m_terms d)"

definition OpenStream :: "('t, 'f) Document \<Rightarrow> string \<Rightarrow> ('t, 'f) Document outcome" where
  "OpenStream d name =
     (if m_streamIsOpen d then
        Threw (FatalError ''Attempting OpenStream() when another stream is open.'') d
      else
        Returned (d\<lparr>m_streamIsOpen := True,
                    m_currentStreamId := 0,
                    m_ringBuffer := Reset (m_ringBuffer d)\<rparr>))"

definition PostTerm :: "'t \<Rightarrow> ('t, 'f) Document \<Rightarrow> ('t, 'f) Document" where
  "PostTerm term d = d\<lparr>cout := cout d @ [term], m_terms := insert term (m_terms d)\<rparr>"

text \<open>The \<^verbatim>\<open>for\<close> loop of \<open>ProcessNGrams\<close>, from \<open>n\<close> with the local \<open>term\<close>.\<close>

function ProcessNGrams_loop ::
  "('t, 'f) TermOps \<Rightarrow> nat \<Rightarrow> nat \<Rightarrow> 't \<Rightarrow> ('t, 'f) Document \<Rightarrow> ('t, 'f) Document outcome" where
  "ProcessNGrams_loop T n count term d =
     (if n < count then
        (case At (m_ringBuffer d) n of
           Inl e \<Rightarrow> Threw e d
         | Inr x \<Rightarrow>
             (let term' = Term_AddTerm T term x
              in ProcessNGrams_loop T (Suc n) count term' (PostTerm term' d)))
      else Returned d)"
  by pat_completeness auto
termination
  by (relation "measure (\<lambda>(T, n, count, term, d). count - n)") auto

definition ProcessNGrams :: "('t, 'f) TermOps \<Rightarrow> ('t, 'f) Document \<Rightarrow> ('t, 'f) Document outcome" where
  "ProcessNGrams T d =
     (let count = GetCount (m_ringBuffer d) in
      if \<not> count > 0 then Threw LogAssertFailed d
      else
        (case At (m_ringBuffer d) 0 of
           Inl e \<Rightarrow> Threw e d
         | Inr term \<Rightarrow> ProcessNGrams_loop T 1 count term (PostTerm term d)))"

declare ProcessNGrams_loop.simps [simp del]

lemma PostTerm_ringBuffer: "m_ringBuffer (PostTerm t d) = m_ringBuffer d"
  by (simp add: PostTerm_def)

lemma ProcessNGrams_loop_ringBuffer:
  "ProcessNGrams_loop T n count t d = Returned d' \<Longrightarrow> m_ringBuffer d' = m_ringBuffer d"
proof (induction T n count t d rule: ProcessNGrams_loop.induct)
  case (1 T n count t d)
  show ?case
  proof (cases "n < count")
    case False
    with "1.prems" show ?thesis by (simp add: ProcessNGrams_loop.simps[of T n])
  next
    case True
    show ?thesis
    proof (cases "At (m_ringBuffer d) n")
      case (Inl e)
      with True "1.prems" show ?thesis by (simp add: ProcessNGrams_loop.simps[of T n])
    next
      case (Inr x)
      with True "1.prems"
      have "ProcessNGrams_loop T (Suc n) count (Term_AddTerm T t x)
              (PostTerm (Term_AddTerm T t x) d) = Returned d'"
        by (simp add: ProcessNGrams_loop.simps[of T n] Let_def)
      from "1.IH"[OF True Inr refl this] show ?thesis
        by (simp add: PostTerm_ringBuffer)
    qed
  qed
qed

lemma ProcessNGrams_ringBuffer:
  "ProcessNGrams T d = Returned d' \<Longrightarrow> m_ringBuffer d' = m_ringBuffer d"
  by (auto simp: ProcessNGrams_def Let_def PostTerm_ringBuffer
      split: if_splits sum.splits dest!: ProcessNGrams_loop_ringBuffer)

lemma PopFront_count: "PopFront rb = Inr rb' \<Longrightarrow> GetCount rb' < GetCount rb"
  by (auto simp: PopFront_def GetCount_def split: list.splits)

text \<open>The \<^verbatim>\<open>while\<close> loop of \<open>PurgeRingBuffer\<close>; each round pops one element.\<close>

function PurgeRingBuffer ::
  "('t, 'f) TermOps \<Rightarrow> ('t, 'f) Document \<Rightarrow> ('t, 'f) Document outcome" where
  "PurgeRingBuffer T d =
     (if \<not> IsEmpty (m_ringBuffer d) then
        (case ProcessNGrams T d of
           Threw e d' \<Rightarrow> Threw e d'
         | Returned d' \<Rightarrow>
             (case PopFront (m_ringBuffer d') of
                Inl e \<Rightarrow> Threw e d'
              | Inr rb \<Rightarrow> PurgeRingBuffer T (d'\<lparr>m_ringBuffer := rb\<rparr>)))
      else Returned d)"
  by pat_completeness auto
termination
proof (relation "measure (\<lambda>(T, d). GetCount (m_ringBuffer d))")
  show "wf (measure (\<lambda>(T, d). GetCount (m_ringBuffer d)))" by simp
next
  fix T :: "('t, 'f) TermOps" and d d' :: "('t, 'f) Document" and rb
  assume "ProcessNGrams T d = Returned d'" and "PopFront (m_ringBuffer d') = Inr rb"
  then show "((T, d'\<lparr>m_ringBuffer := rb\<rparr>), (T, d)) \<in> measure (\<lambda>(T, d). GetCount (m_ringBuffer d))"
    using ProcessNGrams_ringBuffer[of T d d'] PopFront_count[of "m_ringBuffer d'" rb] by simp
qed

declare PurgeRingBuffer.simps [simp del]

definition AddTerm ::
  "('t, 'f) TermOps \<Rightarrow> ('t, 'f) Document \<Rightarrow> string \<Rightarrow> ('t, 'f) Document outcome" where
  "AddTerm T d termText =
     (if \<not> m_streamIsOpen d then
        Threw (FatalError ''Attempting AddTerm() with no open stream.'') d
      else
        (let d1 = d\<lparr>m_postingCount := m_postingCount d + 1\<rparr> in
         case PushBack (m_ringBuffer d1)
                (Term_new T termText (m_currentStreamId d1) (m_docFreqTable d1)) of
           Inl e \<Rightarrow> Threw e d1
         | Inr rb \<Rightarrow>
             (let d2 = d1\<lparr>m_ringBuffer := rb\<rparr> in
              if GetCount (m_ringBuffer d2) = m_maxGramSize d2 then
                (case ProcessNGrams T d2 of
                   Threw e d3 \<Rightarrow> Threw e d3
                 | Returned d3 \<Rightarrow>
                     (case PopFront (m_ringBuffer d3) of
                        Inl e \<Rightarrow> Threw e d3
                      | Inr rb' \<Rightarrow> Returned (d3\<lparr>m_ringBuffer := rb'\<rparr>)))
              else Returned d2)))"

definition CloseStream ::
  "('t, 'f) TermOps \<Rightarrow> ('t, 'f) Document \<Rightarrow> ('t, 'f) Document outcome" where
  "CloseStream T d =
     (if \<not> m_streamIsOpen d then
        Threw (FatalError ''Attempting CloseStream() with no open stream.'') d
      else PurgeRingBuffer T (d\<lparr>m_streamIsOpen := False\<rparr>))"

text \<open>
  A caller of the streaming interface: a sequence of calls on one \<open>Document\<close>, stopped by
  the first exception.
\<close>

datatype call = Call_OpenStream string | Call_AddTerm string | Call_CloseStream

fun do_call :: "('t, 'f) TermOps \<Rightarrow> call \<Rightarrow> ('t, 'f) Document \<Rightarrow> ('t, 'f) Document outcome" where
  "do_call T (Call_OpenStream name) d = OpenStream d name"
| "do_call T (Call_AddTerm termText) d = AddTerm T d termText"
| "do_call T Call_CloseStream d = CloseStream T d"

fun run :: "('t, 'f) TermOps \<Rightarrow> call list \<Rightarrow> ('t, 'f) Document \<Rightarrow> ('t, 'f) Document outcome" where
  "run T [] d = Returned d"
| "run T (c # cs) d =
     (case do_call T c d of
        Threw e d' \<Rightarrow> Threw e d'
      | Returned d' \<Rightarrow> run T cs d')"

text \<open>One complete stream: \<open>OpenStream\<close>, an \<open>AddTerm\<close> per text, \<open>CloseStream\<close>.\<close>

definition stream_calls :: "string \<Rightarrow> string list \<Rightarrow> call list" where
  "stream_calls name texts = Call_OpenStream name # map Call_AddTerm texts @ [Call_CloseStream]"

text \<open>
  The stream's unigram terms: one \<open>Term\<close> per text, built as \<open>AddTerm\<close> builds it.
\<close>

definition unigrams :: "('t, 'f) TermOps \<Rightarrow> ('t, 'f) Document \<Rightarrow> string list \<Rightarrow> 't list" where
  "unigrams T d texts = map (\<lambda>x. Term_new T x (m_currentStreamId d) (m_docFreqTable d)) texts"

text \<open>
  The configuration that \<open>Document\<close> expects: a maximal gram size of at least one that the
  ring buffer can hold, and fewer than that many terms waiting in the ring buffer.
\<close>

definition ring_ok :: "('t, 'f) Document \<Rightarrow> bool" where
  "ring_ok d \<longleftrightarrow>
     1 \<le> m_maxGramSize d \<and> m_maxGramSize d \<le> rb_capacity (m_ringBuffer d) \<and>
     GetCount (m_ringBuffer d) < m_maxGramSize d"


section \<open>The n-grams of a window and of a stream\<close>

text \<open>
  \<open>compositions add t xs\<close> are the terms \<open>t + x\<^sub>1\<close>, \<open>t + x\<^sub>1 + x\<^sub>2\<close>, ... in order, and
  \<open>window_ngrams add w\<close> those of the window \<open>w\<close>: its first term, then the first term
  composed with each further one in turn. \<open>drain_ngrams\<close> are the n-grams of a window and
  of every window left after popping its front; \<open>stream_ngrams add k us\<close> are the n-grams
  of the windows of at most \<open>k\<close> terms starting at each position of the stream \<open>us\<close>.
\<close>

fun compositions :: "('t \<Rightarrow> 't \<Rightarrow> 't) \<Rightarrow> 't \<Rightarrow> 't list \<Rightarrow> 't list" where
  "compositions add t [] = []"
| "compositions add t (x # xs) = add t x # compositions add (add t x) xs"

fun window_ngrams :: "('t \<Rightarrow> 't \<Rightarrow> 't) \<Rightarrow> 't list \<Rightarrow> 't list" where
  "window_ngrams add [] = []"
| "window_ngrams add (t0 # rest) = t0 # compositions add t0 rest"

fun drain_ngrams :: "('t \<Rightarrow> 't \<Rightarrow> 't) \<Rightarrow> 't list \<Rightarrow> 't list" where
  "drain_ngrams add [] = []"
| "drain_ngrams add (t0 # rest) = window_ngrams add (t0 # rest) @ drain_ngrams add rest"

fun stream_ngrams :: "('t \<Rightarrow> 't \<Rightarrow> 't) \<Rightarrow> nat \<Rightarrow> 't list \<Rightarrow> 't list" where
  "stream_ngrams add k [] = []"
| "stream_ngrams add k (u # us) = window_ngrams add (take k (u # us)) @ stream_ngrams add k us"

section \<open>Ingestor\<close>

text \<open>
  Modelled from the spec: the state and the member functions of \<open>Ingestor\<close>.
  \<^verbatim>\<open>Ingestor.cpp\<close> is not among the sources; \<^verbatim>\<open>Ingestor.h\<close> declares the functions, documents
  their contracts and lists the members \<open>m_documentCount\<close>, \<open>m_totalSourceByteSize\<close> and
  \<open>m_documentMap\<close>. The posting counter behind \<open>GetPostingCount\<close>, the fact store and the
  group bookkeeping have no member in the header; they are fields named after the spec.
  Shards, slices, the recycler and the delete lock are outside the model: a shard's answer
  to \<open>Add\<close> is the argument \<open>loc\<close> (\<open>None\<close> when no shard has room), and calls are atomic.
  The counters are \<^verbatim>\<open>size_t\<close> in the header and unbounded here.

  A \<open>DocumentMap\<close> entry is live at a location or tombstoned; \<open>groupMembers\<close> records, in
  order, which document was added under which group.
\<close>

type_synonym DocId = "64 word"
type_synonym GroupId = nat
type_synonym FactHandle = nat
type_synonym location = "nat \<times> nat \<times> nat"

datatype entry = Live location | Tombstoned

record Ingestor =
  m_documentCount :: nat
  m_totalSourceByteSize :: nat
  postingCount :: nat
  m_documentMap :: "DocId \<rightharpoonup> entry"
  registeredFacts :: "FactHandle set"
  facts :: "DocId \<times> FactHandle \<rightharpoonup> bool"
  openGroup :: "GroupId option"
  closedGroups :: "GroupId set"
  groupMembers :: "(GroupId \<times> DocId) list"

definition Ingestor_new :: "FactHandle set \<Rightarrow> Ingestor" where
  "Ingestor_new registered =
     \<lparr>m_documentCount = 0, m_totalSourceByteSize = 0, postingCount = 0,
      m_documentMap = Map.empty, registeredFacts = registered, facts = Map.empty,
      openGroup = None, closedGroups = {}, groupMembers = []\<rparr>"

text \<open>
  Modelled from the spec: \<open>Contains\<close> is true iff a live, fully placed, non-tombstoned entry
  exists (an entry is placed when \<open>Add\<close> records it).
\<close>

definition Contains :: "Ingestor \<Rightarrow> DocId \<Rightarrow> bool" where
  "Contains s docId = (case m_documentMap s docId of Some (Live _) \<Rightarrow> True | _ \<Rightarrow> False)"

text \<open>
  Modelled from the spec: \<open>Add\<close> fails (fatal) if \<open>Contains(id)\<close>; fails with the capacity
  error if no shard has room; otherwise records the location and increments
  \<open>documentCount\<close>, \<open>totalSourceByteSize\<close> by the document's source size and \<open>postingCount\<close> by
  its posting count, and records the id under the open group, if any.
\<close>

definition Add :: "DocId \<Rightarrow> nat \<Rightarrow> nat \<Rightarrow> location option \<Rightarrow> Ingestor \<Rightarrow> Ingestor outcome" where
  "Add docId sourceByteSize postings loc s =
     (if Contains s docId then Threw (FatalError ''duplicate document'') s
      else
        (case loc of
           None \<Rightarrow> Threw NoCapacity s
         | Some l \<Rightarrow>
             Returned (s\<lparr>m_documentMap := (m_documentMap s)(docId \<mapsto> Live l),
                         m_documentCount := m_documentCount s + 1,
                         m_totalSourceByteSize := m_totalSourceByteSize s + sourceByteSize,
                         postingCount := postingCount s + postings,
                         groupMembers :=
                           (case openGroup s of
                              None \<Rightarrow> groupMembers s
                            | Some g \<Rightarrow> groupMembers s @ [(g, docId)])\<rparr>)))"

text \<open>
  Modelled from the spec: \<open>Delete\<close> checks liveness; if live, it marks the entry tombstoned,
  decrements \<open>documentCount\<close> and returns true; otherwise it returns false without error.
\<close>

definition Delete :: "DocId \<Rightarrow> Ingestor \<Rightarrow> bool \<times> Ingestor" where
  "Delete docId s =
     (if Contains s docId then
        (True, s\<lparr>m_documentMap := (m_documentMap s)(docId \<mapsto> Tombstoned),
                 m_documentCount := m_documentCount s - 1\<rparr>)
      else (False, s))"

text \<open>
  Modelled from the spec: \<open>AssertFact\<close> fails (fatal) if the handle is not registered or
  the document is not live; otherwise it records the value.
\<close>

definition AssertFact :: "DocId \<Rightarrow> FactHandle \<Rightarrow> bool \<Rightarrow> Ingestor \<Rightarrow> Ingestor outcome" where
  "AssertFact docId factHandle v s =
     (if factHandle \<notin> registeredFacts s then Threw (FatalError ''unknown fact'') s
      else if \<not> Contains s docId then Threw (FatalError ''document not live'') s
      else Returned (s\<lparr>facts := (facts s)((docId, factHandle) \<mapsto> v)\<rparr>))"

text \<open>
  Modelled from the spec: \<open>OpenGroup\<close>, whose body is not among the sources: it fails (fatal)
  if a group is already open, and otherwise opens the group, under which later \<open>Add\<close>
  calls are recorded. The comment at the declaration (\<^verbatim>\<open>Ingestor.h\<close>, lines 152 to 156)
  words it differently (``The previous group is closed''); with no body to read, the model
  keeps to the spec.
\<close>

definition OpenGroup :: "GroupId \<Rightarrow> Ingestor \<Rightarrow> Ingestor outcome" where
  "OpenGroup groupId s =
     (if openGroup s \<noteq> None then Threw (FatalError ''group already open'') s
      else Returned (s\<lparr>openGroup := Some groupId\<rparr>))"

text \<open>
  Modelled from the spec: \<open>CloseGroup\<close> closes the current group, if any, and seals its
  membership; \<open>ExpireGroup\<close> fails if the group is open or was never closed, and otherwise
  does what \<open>Delete\<close> does for every recorded member, after which the records are gone.
\<close>

definition CloseGroup :: "Ingestor \<Rightarrow> Ingestor" where
  "CloseGroup s =
     s\<lparr>openGroup := None, closedGroups := closedGroups s \<union> set_option (openGroup s)\<rparr>"

definition ExpireGroup :: "GroupId \<Rightarrow> Ingestor \<Rightarrow> Ingestor outcome" where
  "ExpireGroup groupId s =
     (if openGroup s = Some groupId \<or> groupId \<notin> closedGroups s then
        Threw (FatalError ''group not closed'') s
      else
        (let members = map snd (filter (\<lambda>(g, _). g = groupId) (groupMembers s));
             s' = fold (\<lambda>docId t. snd (Delete docId t)) members s
         in Returned (s'\<lparr>groupMembers := filter (\<lambda>(g, _). g \<noteq> groupId) (groupMembers s')\<rparr>)))"

text \<open>
  A caller of the \<open>Ingestor\<close>: a sequence of calls, each leaving the state it returned with
  or threw in.
\<close>

datatype ingestor_call =
    Call_Add DocId nat nat "location option"
  | Call_Delete DocId
  | Call_AssertFact DocId FactHandle bool
  | Call_OpenGroup GroupId
  | Call_CloseGroup
  | Call_ExpireGroup GroupId

fun ingestor_step :: "ingestor_call \<Rightarrow> Ingestor \<Rightarrow> Ingestor" where
  "ingestor_step (Call_Add docId b p loc) s = outcome_state (Add docId b p loc s)"
| "ingestor_step (Call_Delete docId) s = snd (Delete docId s)"
| "ingestor_step (Call_AssertFact docId factHandle v) s = outcome_state (AssertFact docId factHandle v s)"
| "ingestor_step (Call_OpenGroup g) s = outcome_state (OpenGroup g s)"
| "ingestor_step Call_CloseGroup s = CloseGroup s"
| "ingestor_step (Call_ExpireGroup g) s = outcome_state (ExpireGroup g s)"

definition ingestor_run :: "ingestor_call list \<Rightarrow> Ingestor \<Rightarrow> Ingestor" where
  "ingestor_run cs s = fold ingestor_step cs s"

text \<open>
  The aggregate invariant of the spec: \<open>documentCount\<close> is the number of ids for which
  \<open>Contains\<close> is true.
\<close>

definition count_ok :: "Ingestor \<Rightarrow> bool" where
  "count_ok s \<longleftrightarrow> m_documentCount s = card {docId. Contains s docId}"

text \<open>Adding a list of documents, each with its id, source size, posting count and place.\<close>

fun add_call :: "DocId \<times> nat \<times> nat \<times> location \<Rightarrow> ingestor_call" where
  "add_call (docId, b, p, l) = Call_Add docId b p (Some l)"


section \<open>Concrete inputs\<close>

text \<open>
  The table that puts every text in class 0, a configuration with a
  given maximal gram size, the term of a text in stream 0, and a \<open>Document\<close> with an open
  stream whose ring buffer holds a given window.
\<close>

definition example_ops :: "(SpecTerm, string \<Rightarrow> nat) TermOps" where
  "example_ops = SpecTermOps (\<lambda>_. 0)"

definition example_config :: "nat \<Rightarrow> (string \<Rightarrow> nat) IConfiguration" where
  "example_config k = \<lparr>GetMaxGramSize = k, GetDocumentFrequencyTable = (\<lambda>_. 0)\<rparr>"

definition gram :: "string \<Rightarrow> SpecTerm" where
  "gram s = \<lparr>t_text = s, t_streamId = 0, t_frequencyClass = 0\<rparr>"

definition example_window :: "SpecTerm list \<Rightarrow> (SpecTerm, string \<Rightarrow> nat) Document" where
  "example_window w =
     (Document_new (example_config (length w)) (length w) 0)
       \<lparr>m_streamIsOpen := True,
        m_ringBuffer := \<lparr>rb_capacity = length w, rb_items = w\<rparr>\<rparr>"


section \<open>Document: what the operations compute\<close>

lemma At_in_range: "n < length (rb_items rb) \<Longrightarrow> At rb n = Inr (rb_items rb ! n)"
  by (simp add: At_def GetCount_def)

lemma ProcessNGrams_loop_result:
  "count = length (rb_items (m_ringBuffer d)) \<Longrightarrow> n \<le> count \<Longrightarrow>
   ProcessNGrams_loop T n count t d =
     Returned (d\<lparr>cout := cout d @ compositions (Term_AddTerm T) t (drop n (rb_items (m_ringBuffer d))),
                 m_terms := m_terms d \<union> set (compositions (Term_AddTerm T) t (drop n (rb_items (m_ringBuffer d))))\<rparr>)"
proof (induction T n count t d rule: ProcessNGrams_loop.induct)
  case (1 T n count t d)
  let ?items = "rb_items (m_ringBuffer d)"
  show ?case
  proof (cases "n < count")
    case False
    with "1.prems" show ?thesis by (subst ProcessNGrams_loop.simps) simp
  next
    case True
    with "1.prems" have at: "At (m_ringBuffer d) n = Inr (?items ! n)"
      by (simp add: At_in_range)
    from True "1.prems" have dr: "drop n ?items = ?items ! n # drop (Suc n) ?items"
      by (simp add: Cons_nth_drop_Suc)
    let ?t' = "Term_AddTerm T t (?items ! n)"
    have "ProcessNGrams_loop T (Suc n) count ?t' (PostTerm ?t' d) =
        Returned ((PostTerm ?t' d)\<lparr>cout := cout (PostTerm ?t' d) @ compositions (Term_AddTerm T) ?t' (drop (Suc n) (rb_items (m_ringBuffer (PostTerm ?t' d)))),
                 m_terms := m_terms (PostTerm ?t' d) \<union> set (compositions (Term_AddTerm T) ?t' (drop (Suc n) (rb_items (m_ringBuffer (PostTerm ?t' d)))))\<rparr>)"
      using "1.prems" True by (intro "1.IH"[OF True at refl]) (simp_all add: PostTerm_ringBuffer)
    then show ?thesis
      using True at dr by (subst ProcessNGrams_loop.simps) (simp add: Let_def PostTerm_def)
  qed
qed

lemma ProcessNGrams_result:
  assumes "rb_items (m_ringBuffer d) = t0 # rest"
  shows "ProcessNGrams T d =
     Returned (d\<lparr>cout := cout d @ window_ngrams (Term_AddTerm T) (t0 # rest),
                 m_terms := m_terms d \<union> set (window_ngrams (Term_AddTerm T) (t0 # rest))\<rparr>)"
proof -
  have "ProcessNGrams T d =
      ProcessNGrams_loop T 1 (length (rb_items (m_ringBuffer (PostTerm t0 d)))) t0 (PostTerm t0 d)"
    using assms by (simp add: ProcessNGrams_def GetCount_def At_def Let_def PostTerm_ringBuffer)
  also have "\<dots> = Returned ((PostTerm t0 d)\<lparr>cout := cout (PostTerm t0 d) @ compositions (Term_AddTerm T) t0 (drop 1 (rb_items (m_ringBuffer (PostTerm t0 d)))),
                 m_terms := m_terms (PostTerm t0 d) \<union> set (compositions (Term_AddTerm T) t0 (drop 1 (rb_items (m_ringBuffer (PostTerm t0 d)))))\<rparr>)"
    using assms by (intro ProcessNGrams_loop_result) (simp_all add: PostTerm_ringBuffer)
  also have "\<dots> = Returned (d\<lparr>cout := cout d @ window_ngrams (Term_AddTerm T) (t0 # rest),
                 m_terms := m_terms d \<union> set (window_ngrams (Term_AddTerm T) (t0 # rest))\<rparr>)"
    using assms by (simp add: PostTerm_def)
  finally show ?thesis .
qed

lemma PurgeRingBuffer_result:
  "rb_items (m_ringBuffer d) = xs \<Longrightarrow>
   PurgeRingBuffer T d =
     Returned (d\<lparr>m_ringBuffer := (m_ringBuffer d)\<lparr>rb_items := []\<rparr>,
                 cout := cout d @ drain_ngrams (Term_AddTerm T) xs,
                 m_terms := m_terms d \<union> set (drain_ngrams (Term_AddTerm T) xs)\<rparr>)"
proof (induction xs arbitrary: d)
  case Nil
  then show ?case
    by (subst PurgeRingBuffer.simps) (simp add: IsEmpty_def GetCount_def)
next
  case (Cons x xs)
  let ?d1 = "d\<lparr>cout := cout d @ window_ngrams (Term_AddTerm T) (x # xs),
                 m_terms := m_terms d \<union> set (window_ngrams (Term_AddTerm T) (x # xs))\<rparr>"
  let ?d2 = "?d1\<lparr>m_ringBuffer := (m_ringBuffer ?d1)\<lparr>rb_items := xs\<rparr>\<rparr>"
  have p: "ProcessNGrams T d = Returned ?d1"
    using Cons.prems by (rule ProcessNGrams_result)
  have pop: "PopFront (m_ringBuffer ?d1) = Inr ((m_ringBuffer ?d1)\<lparr>rb_items := xs\<rparr>)"
    using Cons.prems by (simp add: PopFront_def)
  have "rb_items (m_ringBuffer ?d2) = xs" by simp
  from Cons.IH[OF this] have "PurgeRingBuffer T ?d2 = Returned (?d2\<lparr>m_ringBuffer := (m_ringBuffer ?d2)\<lparr>rb_items := []\<rparr>,
                 cout := cout ?d2 @ drain_ngrams (Term_AddTerm T) xs,
                 m_terms := m_terms ?d2 \<union> set (drain_ngrams (Term_AddTerm T) xs)\<rparr>)" .
  then show ?case
    using Cons.prems p pop
    by (subst PurgeRingBuffer.simps) (simp add: IsEmpty_def GetCount_def Un_assoc)
qed

subsection \<open>Facts about the n-gram lists\<close>

lemma length_compositions: "length (compositions add t xs) = length xs"
  by (induction xs arbitrary: t) simp_all

lemma nth_compositions:
  "i < length xs \<Longrightarrow> compositions add t xs ! i = foldl add t (take (Suc i) xs)"
proof (induction xs arbitrary: t i)
  case Nil
  then show ?case by simp
next
  case (Cons x xs)
  then show ?case by (cases i) simp_all
qed

lemma length_window_ngrams: "length (window_ngrams add w) = length w"
  by (cases w) (simp_all add: length_compositions)

lemma nth_window_ngrams:
  "i \<le> length rest \<Longrightarrow> window_ngrams add (t0 # rest) ! i = foldl add t0 (take i rest)"
  by (cases i) (simp_all add: nth_compositions)

lemma hd_window_ngrams: "w \<noteq> [] \<Longrightarrow> hd w \<in> set (window_ngrams add w)"
  by (cases w) simp_all

lemma stream_ngrams_short: "length us \<le> k \<Longrightarrow> stream_ngrams add k us = drain_ngrams add us"
  by (induction us) simp_all

lemma length_drain_ngrams: "2 * length (drain_ngrams add us) = length us * Suc (length us)"
  by (induction us) (simp_all add: length_compositions)

lemma length_stream_ngrams_long:
  "k \<le> Suc (length us) \<Longrightarrow>
   2 * length (stream_ngrams add k us) + k * (k - 1) = 2 * (length us * k)"
proof (induction us)
  case Nil
  then have "k = 0 \<or> k = 1" by auto
  then show ?case by auto
next
  case (Cons u us)
  show ?case
  proof (cases "k \<le> Suc (length us)")
    case True
    then have "length (stream_ngrams add k (u # us)) = k + length (stream_ngrams add k us)"
      by (simp add: length_window_ngrams min_def)
    with Cons.IH[OF True] show ?thesis
      by simp
  next
    case False
    with Cons.prems have k: "k = Suc (Suc (length us))" by simp
    then have "stream_ngrams add k (u # us) = drain_ngrams add (u # us)"
      by (intro stream_ngrams_short) simp
    then show ?thesis
      using length_drain_ngrams[of add "u # us"] k by (simp add: algebra_simps)
  qed
qed

lemma unigrams_in_stream_ngrams: "0 < k \<Longrightarrow> set us \<subseteq> set (stream_ngrams add k us)"
proof (induction us)
  case Nil
  then show ?case by simp
next
  case (Cons u us)
  from \<open>0 < k\<close> obtain k' where "k = Suc k'" by (cases k) auto
  with Cons show ?case by auto
qed

lemma set_drain_ngrams_mono: "set (drain_ngrams add (tl w)) \<subseteq> set (drain_ngrams add w)"
  by (cases w) auto

subsection \<open>One AddTerm, and a whole stream\<close>

lemma AddTerm_result:
  assumes "m_streamIsOpen d" and "length (rb_items (m_ringBuffer d)) \<noteq> rb_capacity (m_ringBuffer d)"
  shows "AddTerm T d termText =
    (let u = Term_new T termText (m_currentStreamId d) (m_docFreqTable d);
         w = rb_items (m_ringBuffer d) @ [u];
         d1 = d\<lparr>m_postingCount := m_postingCount d + 1\<rparr>
     in if length w = m_maxGramSize d then
          Returned (d1\<lparr>m_ringBuffer := (m_ringBuffer d)\<lparr>rb_items := tl w\<rparr>,
                       cout := cout d @ window_ngrams (Term_AddTerm T) w,
                       m_terms := m_terms d \<union> set (window_ngrams (Term_AddTerm T) w)\<rparr>)
        else Returned (d1\<lparr>m_ringBuffer := (m_ringBuffer d)\<lparr>rb_items := w\<rparr>\<rparr>))"
proof -
  define u where "u = Term_new T termText (m_currentStreamId d) (m_docFreqTable d)"
  define w where "w = rb_items (m_ringBuffer d) @ [u]"
  define d2 where "d2 = d\<lparr>m_postingCount := m_postingCount d + 1,
                          m_ringBuffer := (m_ringBuffer d)\<lparr>rb_items := w\<rparr>\<rparr>"
  obtain t0 rest where w: "w = t0 # rest" by (cases w) (simp_all add: w_def)
  have push: "PushBack (m_ringBuffer d) u = Inr ((m_ringBuffer d)\<lparr>rb_items := w\<rparr>)"
    using assms(2) by (simp add: PushBack_def GetCount_def w_def)
  have "rb_items (m_ringBuffer d2) = t0 # rest" by (simp add: d2_def w)
  from ProcessNGrams_result[OF this, of T]
  have p: "ProcessNGrams T d2 =
     Returned (d2\<lparr>cout := cout d2 @ window_ngrams (Term_AddTerm T) w,
                 m_terms := m_terms d2 \<union> set (window_ngrams (Term_AddTerm T) w)\<rparr>)"
    by (simp add: w)
  have pop: "PopFront ((m_ringBuffer d)\<lparr>rb_items := w\<rparr>) = Inr ((m_ringBuffer d)\<lparr>rb_items := tl w\<rparr>)"
    by (simp add: PopFront_def w)
  show ?thesis
    using assms(1) push p pop
    unfolding AddTerm_def Let_def u_def[symmetric] w_def[symmetric]
    by (simp add: d2_def GetCount_def u_def[symmetric])
qed

lemma CloseStream_result:
  assumes "m_streamIsOpen d"
  shows "CloseStream T d =
     Returned (d\<lparr>m_streamIsOpen := False,
                 m_ringBuffer := (m_ringBuffer d)\<lparr>rb_items := []\<rparr>,
                 cout := cout d @ drain_ngrams (Term_AddTerm T) (rb_items (m_ringBuffer d)),
                 m_terms := m_terms d \<union> set (drain_ngrams (Term_AddTerm T) (rb_items (m_ringBuffer d)))\<rparr>)"
  using assms
  by (simp add: CloseStream_def
      PurgeRingBuffer_result[where xs = "rb_items (m_ringBuffer d)"])

lemma AddTerms_CloseStream_result:
  assumes "m_streamIsOpen d"
    and "length (rb_items (m_ringBuffer d)) < m_maxGramSize d"
    and "m_maxGramSize d \<le> rb_capacity (m_ringBuffer d)"
  shows "run T (map Call_AddTerm texts @ [Call_CloseStream]) d =
     Returned (d\<lparr>m_postingCount := m_postingCount d + length texts,
                 m_streamIsOpen := False,
                 m_ringBuffer := (m_ringBuffer d)\<lparr>rb_items := []\<rparr>,
                 cout := cout d @ stream_ngrams (Term_AddTerm T) (m_maxGramSize d)
                           (rb_items (m_ringBuffer d) @ unigrams T d texts),
                 m_terms := m_terms d \<union> set (stream_ngrams (Term_AddTerm T) (m_maxGramSize d)
                           (rb_items (m_ringBuffer d) @ unigrams T d texts))\<rparr>)"
  using assms
proof (induction texts arbitrary: d)
  case Nil
  then show ?case
    by (simp add: CloseStream_result unigrams_def stream_ngrams_short)
next
  case (Cons x xs)
  let ?k = "m_maxGramSize d"
  let ?u = "Term_new T x (m_currentStreamId d) (m_docFreqTable d)"
  let ?w = "rb_items (m_ringBuffer d) @ [?u]"
  from Cons.prems have cap: "length (rb_items (m_ringBuffer d)) \<noteq> rb_capacity (m_ringBuffer d)"
    by simp
  note add = AddTerm_result[OF Cons.prems(1) cap, of T x, unfolded Let_def]
  show ?case
  proof (cases "length ?w = ?k")
    case True
    let ?d' = "d\<lparr>m_postingCount := m_postingCount d + 1,
                 m_ringBuffer := (m_ringBuffer d)\<lparr>rb_items := tl ?w\<rparr>,
                 cout := cout d @ window_ngrams (Term_AddTerm T) ?w,
                 m_terms := m_terms d \<union> set (window_ngrams (Term_AddTerm T) ?w)\<rparr>"
    from True add have a: "AddTerm T d x = Returned ?d'" by simp
    have st: "stream_ngrams (Term_AddTerm T) ?k (?w @ unigrams T d xs) =
        window_ngrams (Term_AddTerm T) ?w @ stream_ngrams (Term_AddTerm T) ?k (tl ?w @ unigrams T d xs)"
    proof (cases ?w)
      case Nil
      then show ?thesis by simp
    next
      case (Cons t0 rest)
      from True Cons have "?k = Suc (length rest)" by simp
      then have "take ?k ((t0 # rest) @ unigrams T d xs) = t0 # rest" by simp
      with Cons show ?thesis by simp
    qed
    have u: "unigrams T ?d' xs = unigrams T d xs" by (simp add: unigrams_def)
    have "run T (map Call_AddTerm xs @ [Call_CloseStream]) ?d' =
     Returned (?d'\<lparr>m_postingCount := m_postingCount ?d' + length xs,
                 m_streamIsOpen := False,
                 m_ringBuffer := (m_ringBuffer ?d')\<lparr>rb_items := []\<rparr>,
                 cout := cout ?d' @ stream_ngrams (Term_AddTerm T) (m_maxGramSize ?d')
                           (rb_items (m_ringBuffer ?d') @ unigrams T ?d' xs),
                 m_terms := m_terms ?d' \<union> set (stream_ngrams (Term_AddTerm T) (m_maxGramSize ?d')
                           (rb_items (m_ringBuffer ?d') @ unigrams T ?d' xs))\<rparr>)"
      using Cons.prems True by (intro Cons.IH) simp_all
    then show ?thesis
      using a st u by (simp add: unigrams_def Un_assoc)
  next
    case False
    let ?d' = "d\<lparr>m_postingCount := m_postingCount d + 1,
                 m_ringBuffer := (m_ringBuffer d)\<lparr>rb_items := ?w\<rparr>\<rparr>"
    from False add have a: "AddTerm T d x = Returned ?d'" by simp
    have u: "unigrams T ?d' xs = unigrams T d xs" by (simp add: unigrams_def)
    have "run T (map Call_AddTerm xs @ [Call_CloseStream]) ?d' =
     Returned (?d'\<lparr>m_postingCount := m_postingCount ?d' + length xs,
                 m_streamIsOpen := False,
                 m_ringBuffer := (m_ringBuffer ?d')\<lparr>rb_items := []\<rparr>,
                 cout := cout ?d' @ stream_ngrams (Term_AddTerm T) (m_maxGramSize ?d')
                           (rb_items (m_ringBuffer ?d') @ unigrams T ?d' xs),
                 m_terms := m_terms ?d' \<union> set (stream_ngrams (Term_AddTerm T) (m_maxGramSize ?d')
                           (rb_items (m_ringBuffer ?d') @ unigrams T ?d' xs))\<rparr>)"
      using Cons.prems False by (intro Cons.IH) simp_all
    then show ?thesis
      using a u by (simp add: unigrams_def)
  qed
qed

lemma stream_result:
  assumes "\<not> m_streamIsOpen d" and "1 \<le> m_maxGramSize d"
    and "m_maxGramSize d \<le> rb_capacity (m_ringBuffer d)"
  shows "run T (stream_calls name texts) d =
     Returned (d\<lparr>m_postingCount := m_postingCount d + length texts,
                 m_currentStreamId := 0,
                 m_ringBuffer := (m_ringBuffer d)\<lparr>rb_items := []\<rparr>,
                 cout := cout d @ stream_ngrams (Term_AddTerm T) (m_maxGramSize d)
                           (unigrams T (d\<lparr>m_currentStreamId := 0\<rparr>) texts),
                 m_terms := m_terms d \<union> set (stream_ngrams (Term_AddTerm T) (m_maxGramSize d)
                           (unigrams T (d\<lparr>m_currentStreamId := 0\<rparr>) texts))\<rparr>)"
proof -
  let ?d0 = "d\<lparr>m_streamIsOpen := True, m_currentStreamId := 0,
               m_ringBuffer := Reset (m_ringBuffer d)\<rparr>"
  have o: "OpenStream d name = Returned ?d0"
    using assms(1) by (simp add: OpenStream_def)
  have u: "unigrams T ?d0 texts = unigrams T (d\<lparr>m_currentStreamId := 0\<rparr>) texts"
    by (simp add: unigrams_def)
  have "run T (map Call_AddTerm texts @ [Call_CloseStream]) ?d0 =
     Returned (?d0\<lparr>m_postingCount := m_postingCount ?d0 + length texts,
                 m_streamIsOpen := False,
                 m_ringBuffer := (m_ringBuffer ?d0)\<lparr>rb_items := []\<rparr>,
                 cout := cout ?d0 @ stream_ngrams (Term_AddTerm T) (m_maxGramSize ?d0)
                           (rb_items (m_ringBuffer ?d0) @ unigrams T ?d0 texts),
                 m_terms := m_terms ?d0 \<union> set (stream_ngrams (Term_AddTerm T) (m_maxGramSize ?d0)
                           (rb_items (m_ringBuffer ?d0) @ unigrams T ?d0 texts))\<rparr>)"
    using assms by (intro AddTerms_CloseStream_result) (simp_all add: Reset_def)
  then show ?thesis
    using o u assms(1) by (simp add: stream_calls_def Reset_def)
qed

section \<open>Claims about Document\<close>

text \<open>
  C2. For a ring buffer holding a window \<open>w\<close> of \<open>k \<ge> 1\<close> terms, one call of
  \<open>ProcessNGrams\<close> returns normally, passes exactly \<open>k\<close> terms to \<open>PostTerm\<close> (they are
  appended to \<open>cout\<close> in order and inserted into \<open>m_terms\<close>), and the \<open>i\<close>-th of them is
  \<open>w[0] + w[1] + ... + w[i]\<close>, composed from the left by \<open>Term::AddTerm\<close>. Nothing else of
  the document changes.
\<close>

theorem ProcessNGrams_emits_prefix_compositions:
  assumes "rb_items (m_ringBuffer d) = w" and "1 \<le> length w"
  shows "\<exists>es. ProcessNGrams T d =
             Returned (d\<lparr>cout := cout d @ es, m_terms := m_terms d \<union> set es\<rparr>)
           \<and> length es = GetCount (m_ringBuffer d)
           \<and> (\<forall>i < length w. es ! i = foldl (Term_AddTerm T) (w ! 0) (take i (drop 1 w)))"
proof -
  from assms obtain t0 rest where w: "w = t0 # rest" by (cases w) auto
  let ?es = "window_ngrams (Term_AddTerm T) (t0 # rest)"
  have "ProcessNGrams T d = Returned (d\<lparr>cout := cout d @ ?es, m_terms := m_terms d \<union> set ?es\<rparr>)"
    using assms(1) w by (intro ProcessNGrams_result) simp
  moreover have "length ?es = GetCount (m_ringBuffer d)"
    using assms(1) w by (simp add: GetCount_def length_compositions)
  moreover have "\<forall>i < length w. ?es ! i = foldl (Term_AddTerm T) (w ! 0) (take i (drop 1 w))"
    using w nth_window_ngrams[of _ rest "Term_AddTerm T" t0] by simp
  ultimately show ?thesis by blast
qed

theorem ProcessNGrams_emits_prefix_compositions_witness:
  "ProcessNGrams example_ops (example_window [gram ''a'', gram ''b'', gram ''c''])
   = Returned ((example_window [gram ''a'', gram ''b'', gram ''c''])
        \<lparr>cout := [gram ''a'', gram ''ab'', gram ''abc''],
         m_terms := {gram ''a'', gram ''ab'', gram ''abc''}\<rparr>)"
proof -
  let ?w = "[gram ''a'', gram ''b'', gram ''c'']"
  let ?d = "example_window ?w"
  have w: "rb_items (m_ringBuffer ?d) = ?w" by (simp add: example_window_def)
  have l: "1 \<le> length ?w" by simp
  from ProcessNGrams_emits_prefix_compositions[OF w l, of example_ops]
  obtain es where r: "ProcessNGrams example_ops ?d = Returned (?d\<lparr>cout := cout ?d @ es, m_terms := m_terms ?d \<union> set es\<rparr>)"
    and len: "length es = GetCount (m_ringBuffer ?d)"
    and nth: "\<forall>i < length ?w. es ! i = foldl (Term_AddTerm example_ops) (?w ! 0) (take i (drop 1 ?w))"
    by blast
  from len have len3: "length es = 3" by (simp add: GetCount_def example_window_def)
  from nth have "es ! 0 = gram ''a''" by simp
  moreover from nth have "es ! 1 = gram ''ab''"
    by (simp add: example_ops_def SpecTermOps_def gram_def)
  moreover from nth have "es ! 2 = gram ''abc''"
    by (simp add: example_ops_def SpecTermOps_def gram_def)
  ultimately have "es = [gram ''a'', gram ''ab'', gram ''abc'']"
    using len3 by (auto simp: list_eq_iff_nth_eq less_Suc_eq numeral_3_eq_3 numeral_2_eq_2)
  with r show ?thesis by (simp add: example_window_def Document_new_def)
qed

lemma drain_ngrams_concat:
  "drain_ngrams add w = concat (map (\<lambda>i. window_ngrams add (drop i w)) [0..<length w])"
proof (induction w)
  case Nil
  then show ?case by simp
next
  case (Cons x xs)
  have "[0..<length (x # xs)] = 0 # map Suc [0..<length xs]"
    by (simp add: upt_conv_Cons map_Suc_upt del: upt_Suc)
  then show ?case using Cons.IH by (simp add: comp_def del: upt_Suc)
qed

lemma ngram_in_drain_ngrams:
  assumes "i \<le> j" and "j < length w"
  shows "foldl add (w ! i) (take (j - i) (drop (Suc i) w)) \<in> set (drain_ngrams add w)"
proof -
  from assms have i: "i < length w" by simp
  then have dr: "drop i w = w ! i # drop (Suc i) w"
    by (simp add: Cons_nth_drop_Suc)
  from assms have "j - i \<le> length (drop (Suc i) w)" by simp
  then have "window_ngrams add (w ! i # drop (Suc i) w) ! (j - i) =
      foldl add (w ! i) (take (j - i) (drop (Suc i) w))"
    by (rule nth_window_ngrams)
  moreover from assms have "j - i < length (window_ngrams add (w ! i # drop (Suc i) w))"
    by (simp add: length_compositions)
  ultimately have "foldl add (w ! i) (take (j - i) (drop (Suc i) w))
      \<in> set (window_ngrams add (drop i w))"
    unfolding dr by (metis nth_mem)
  with i show ?thesis
    unfolding drain_ngrams_concat by force
qed

text \<open>
  C3. \<open>CloseStream\<close> on a document with an open stream returns normally, with the stream
  closed and the ring buffer empty. Where the ring buffer held the window \<open>w\<close>, it has run
  \<open>ProcessNGrams\<close> on \<open>w\<close>, then on \<open>w\<close> without its first term, and so on down to the last
  term alone: \<open>cout\<close> grows by the n-grams of these windows in this order, and \<open>m_terms\<close>
  by the same terms, so that every n-gram \<open>w[i] + ... + w[j]\<close> of the trailing terms is in
  the term set.
\<close>

theorem CloseStream_drains_ring_buffer:
  assumes "m_streamIsOpen d" and "rb_items (m_ringBuffer d) = w"
  shows "\<exists>d'. CloseStream T d = Returned d'
           \<and> IsEmpty (m_ringBuffer d') \<and> \<not> m_streamIsOpen d'
           \<and> cout d' = cout d @
                 concat (map (\<lambda>i. window_ngrams (Term_AddTerm T) (drop i w)) [0..<length w])
           \<and> m_terms d' = m_terms d \<union>
                 (\<Union>i \<in> {0..<length w}. set (window_ngrams (Term_AddTerm T) (drop i w)))
           \<and> (\<forall>i j. i \<le> j \<and> j < length w \<longrightarrow>
                 foldl (Term_AddTerm T) (w ! i) (take (j - i) (drop (Suc i) w)) \<in> m_terms d')
           \<and> m_postingCount d' = m_postingCount d \<and> m_maxGramSize d' = m_maxGramSize d"
proof -
  let ?add = "Term_AddTerm T"
  let ?d' = "d\<lparr>m_streamIsOpen := False,
                 m_ringBuffer := (m_ringBuffer d)\<lparr>rb_items := []\<rparr>,
                 cout := cout d @ drain_ngrams ?add w,
                 m_terms := m_terms d \<union> set (drain_ngrams ?add w)\<rparr>"
  have r: "CloseStream T d = Returned ?d'"
    using CloseStream_result[OF assms(1), of T] assms(2) by simp
  have s: "set (drain_ngrams ?add w) =
      (\<Union>i \<in> {0..<length w}. set (window_ngrams ?add (drop i w)))"
    unfolding drain_ngrams_concat by simp
  have m: "\<forall>i j. i \<le> j \<and> j < length w \<longrightarrow>
      foldl ?add (w ! i) (take (j - i) (drop (Suc i) w)) \<in> m_terms ?d'"
    using ngram_in_drain_ngrams[of _ _ w ?add] by simp
  have "IsEmpty (m_ringBuffer ?d')" by (simp add: IsEmpty_def GetCount_def)
  moreover have "cout ?d' = cout d @
      concat (map (\<lambda>i. window_ngrams ?add (drop i w)) [0..<length w])"
    by (simp add: drain_ngrams_concat)
  moreover have "m_terms ?d' = m_terms d \<union>
      (\<Union>i \<in> {0..<length w}. set (window_ngrams ?add (drop i w)))"
    using s by simp
  ultimately show ?thesis using r m by (intro exI[of _ ?d']) simp
qed

theorem CloseStream_drains_ring_buffer_witness:
  "\<not> is_thrown (CloseStream example_ops (example_window [gram ''x'', gram ''y'']))
   \<and> IsEmpty (m_ringBuffer (outcome_state
         (CloseStream example_ops (example_window [gram ''x'', gram ''y'']))))
   \<and> cout (outcome_state (CloseStream example_ops (example_window [gram ''x'', gram ''y''])))
       = [gram ''x'', gram ''xy'', gram ''y'']
   \<and> m_terms (outcome_state (CloseStream example_ops (example_window [gram ''x'', gram ''y''])))
       = {gram ''x'', gram ''xy'', gram ''y''}"
proof -
  let ?w = "[gram ''x'', gram ''y'']"
  let ?d = "example_window ?w"
  have o: "m_streamIsOpen ?d" by (simp add: example_window_def)
  have w: "rb_items (m_ringBuffer ?d) = ?w" by (simp add: example_window_def)
  from CloseStream_drains_ring_buffer[OF o w, of example_ops]
  obtain d' where r: "CloseStream example_ops ?d = Returned d'"
    and e: "IsEmpty (m_ringBuffer d')"
    and co: "cout d' = cout ?d @
                 concat (map (\<lambda>i. window_ngrams (Term_AddTerm example_ops) (drop i ?w)) [0..<length ?w])"
    and t: "m_terms d' = m_terms ?d \<union>
                 (\<Union>i \<in> {0..<length ?w}. set (window_ngrams (Term_AddTerm example_ops) (drop i ?w)))"
    by blast
  have u: "[0..<length ?w] = [0, 1]" by (simp add: upt_conv_Cons)
  have u': "{0..<length ?w} = {0, 1}" by auto
  have xy: "Term_AddTerm example_ops (gram ''x'') (gram ''y'') = gram ''xy''"
    by (simp add: example_ops_def SpecTermOps_def gram_def)
  from co have co': "cout d' = [gram ''x'', gram ''xy'', gram ''y'']"
    unfolding u by (simp add: xy example_window_def Document_new_def)
  from t have t': "m_terms d' = {gram ''x'', gram ''xy'', gram ''y''}"
    unfolding u' by (auto simp: xy example_window_def Document_new_def)
  from r e co' t' show ?thesis by simp
qed

lemma Document_new_fields:
  "m_streamIsOpen (Document_new cfg cap sid) = False"
  "m_maxGramSize (Document_new cfg cap sid) = GetMaxGramSize cfg"
  "m_docFreqTable (Document_new cfg cap sid) = GetDocumentFrequencyTable cfg"
  "m_postingCount (Document_new cfg cap sid) = 0"
  "rb_capacity (m_ringBuffer (Document_new cfg cap sid)) = cap"
  "rb_items (m_ringBuffer (Document_new cfg cap sid)) = []"
  "m_terms (Document_new cfg cap sid) = {}"
  "cout (Document_new cfg cap sid) = []"
  by (simp_all add: Document_new_def RingBuffer_new_def)

lemma fresh_stream_result:
  fixes T :: "('t, 'f) TermOps"
  assumes "1 \<le> GetMaxGramSize cfg" and "GetMaxGramSize cfg \<le> cap"
  shows "\<exists>d. run T (stream_calls name texts) (Document_new cfg cap sid) = Returned d
    \<and> cout d = stream_ngrams (Term_AddTerm T) (GetMaxGramSize cfg)
                  (map (\<lambda>x. Term_new T x 0 (GetDocumentFrequencyTable cfg)) texts)
    \<and> m_terms d = set (stream_ngrams (Term_AddTerm T) (GetMaxGramSize cfg)
                  (map (\<lambda>x. Term_new T x 0 (GetDocumentFrequencyTable cfg)) texts))
    \<and> m_postingCount d = length texts \<and> \<not> m_streamIsOpen d
    \<and> rb_items (m_ringBuffer d) = []"
proof -
  let ?d = "Document_new cfg cap sid :: ('t, 'f) Document"
  have "run T (stream_calls name texts) ?d =
     Returned (?d\<lparr>m_postingCount := m_postingCount ?d + length texts,
                 m_currentStreamId := 0,
                 m_ringBuffer := (m_ringBuffer ?d)\<lparr>rb_items := []\<rparr>,
                 cout := cout ?d @ stream_ngrams (Term_AddTerm T) (m_maxGramSize ?d)
                           (unigrams T (?d\<lparr>m_currentStreamId := 0\<rparr>) texts),
                 m_terms := m_terms ?d \<union> set (stream_ngrams (Term_AddTerm T) (m_maxGramSize ?d)
                           (unigrams T (?d\<lparr>m_currentStreamId := 0\<rparr>) texts))\<rparr>)"
    using assms by (intro stream_result) (simp_all add: Document_new_fields)
  then show ?thesis
    by (simp add: Document_new_fields unigrams_def)
qed

text \<open>
  C1. A \<open>Document\<close> constructed with \<open>maxGramSize = 2\<close> (and a ring buffer that holds at least
  two terms) takes \<open>OpenStream\<close>, \<open>AddTerm("a")\<close>, \<open>AddTerm("b")\<close>, \<open>AddTerm("c")\<close>,
  \<open>CloseStream\<close> without an exception. \<open>PostTerm\<close> is called five times, with \<open>a\<close>, \<open>a+b\<close>,
  \<open>b\<close>, \<open>b+c\<close>, \<open>c\<close> in this order, so the term set is \<open>{a, b, c, a+b, b+c}\<close>. Where
  \<open>Term\<close> tells these five and \<open>a+b+c\<close> apart, the set has five elements and \<open>a+b+c\<close> is
  neither posted nor in the set.
\<close>

theorem abc_bigrams:
  assumes "GetMaxGramSize cfg = 2" and "2 \<le> cap"
    and "a = Term_new T ''a'' 0 (GetDocumentFrequencyTable cfg)"
    and "b = Term_new T ''b'' 0 (GetDocumentFrequencyTable cfg)"
    and "c = Term_new T ''c'' 0 (GetDocumentFrequencyTable cfg)"
  shows "\<exists>d. run T (stream_calls name [''a'', ''b'', ''c'']) (Document_new cfg cap sid) = Returned d
    \<and> cout d = [a, Term_AddTerm T a b, b, Term_AddTerm T b c, c]
    \<and> m_terms d = {a, b, c, Term_AddTerm T a b, Term_AddTerm T b c}
    \<and> (distinct [a, b, c, Term_AddTerm T a b, Term_AddTerm T b c,
                  Term_AddTerm T (Term_AddTerm T a b) c] \<longrightarrow>
         GetPostingCount d = 5
         \<and> Term_AddTerm T (Term_AddTerm T a b) c \<notin> set (cout d)
         \<and> Term_AddTerm T (Term_AddTerm T a b) c \<notin> m_terms d)"
proof -
  from assms(1,2) have k: "1 \<le> GetMaxGramSize cfg" "GetMaxGramSize cfg \<le> cap" by simp_all
  from fresh_stream_result[OF k, of T name "[''a'', ''b'', ''c'']" sid]
  obtain d where r: "run T (stream_calls name [''a'', ''b'', ''c'']) (Document_new cfg cap sid) = Returned d"
    and co: "cout d = stream_ngrams (Term_AddTerm T) (GetMaxGramSize cfg)
                  (map (\<lambda>x. Term_new T x 0 (GetDocumentFrequencyTable cfg)) [''a'', ''b'', ''c''])"
    and t: "m_terms d = set (stream_ngrams (Term_AddTerm T) (GetMaxGramSize cfg)
                  (map (\<lambda>x. Term_new T x 0 (GetDocumentFrequencyTable cfg)) [''a'', ''b'', ''c'']))"
    by blast
  have s: "stream_ngrams (Term_AddTerm T) (GetMaxGramSize cfg)
             (map (\<lambda>x. Term_new T x 0 (GetDocumentFrequencyTable cfg)) [''a'', ''b'', ''c''])
           = [a, Term_AddTerm T a b, b, Term_AddTerm T b c, c]"
    using assms by (simp add: numeral_2_eq_2)
  have co': "cout d = [a, Term_AddTerm T a b, b, Term_AddTerm T b c, c]"
    by (rule trans[OF co s])
  have t': "m_terms d = {a, b, c, Term_AddTerm T a b, Term_AddTerm T b c}"
    unfolding t s by auto
  show ?thesis
  proof (intro exI[of _ d] conjI impI)
    assume dist: "distinct [a, b, c, Term_AddTerm T a b, Term_AddTerm T b c,
                  Term_AddTerm T (Term_AddTerm T a b) c]"
    have "card (set [a, b, c, Term_AddTerm T a b, Term_AddTerm T b c]) =
        length [a, b, c, Term_AddTerm T a b, Term_AddTerm T b c]"
      using dist by (intro distinct_card) simp
    then show "GetPostingCount d = 5"
      unfolding GetPostingCount_def t' by simp
    show "Term_AddTerm T (Term_AddTerm T a b) c \<notin> set (cout d)"
      using dist unfolding co' by auto
    show "Term_AddTerm T (Term_AddTerm T a b) c \<notin> m_terms d"
      using dist unfolding t' by auto
  qed (fact r co' t')+
qed

theorem abc_bigrams_witness:
  "\<not> is_thrown (run example_ops (stream_calls ''body'' [''a'', ''b'', ''c''])
       (Document_new (example_config 2) 2 0))
   \<and> cout (outcome_state (run example_ops (stream_calls ''body'' [''a'', ''b'', ''c''])
       (Document_new (example_config 2) 2 0)))
     = [gram ''a'', gram ''ab'', gram ''b'', gram ''bc'', gram ''c'']
   \<and> m_terms (outcome_state (run example_ops (stream_calls ''body'' [''a'', ''b'', ''c''])
       (Document_new (example_config 2) 2 0)))
     = {gram ''a'', gram ''b'', gram ''c'', gram ''ab'', gram ''bc''}
   \<and> GetPostingCount (outcome_state (run example_ops (stream_calls ''body'' [''a'', ''b'', ''c''])
       (Document_new (example_config 2) 2 0))) = 5
   \<and> gram ''abc'' \<notin> m_terms (outcome_state (run example_ops
       (stream_calls ''body'' [''a'', ''b'', ''c'']) (Document_new (example_config 2) 2 0)))"
proof -
  let ?f = "GetDocumentFrequencyTable (example_config 2)"
  have k: "GetMaxGramSize (example_config 2) = 2" by (simp add: example_config_def)
  have a: "gram ''a'' = Term_new example_ops ''a'' 0 ?f"
    and b: "gram ''b'' = Term_new example_ops ''b'' 0 ?f"
    and c: "gram ''c'' = Term_new example_ops ''c'' 0 ?f"
    by (simp_all add: example_ops_def example_config_def SpecTermOps_def gram_def)
  have ab: "Term_AddTerm example_ops (gram ''a'') (gram ''b'') = gram ''ab''"
    and bc: "Term_AddTerm example_ops (gram ''b'') (gram ''c'') = gram ''bc''"
    and abc: "Term_AddTerm example_ops (gram ''ab'') (gram ''c'') = gram ''abc''"
    by (simp_all add: example_ops_def SpecTermOps_def gram_def)
  have dist: "distinct [gram ''a'', gram ''b'', gram ''c'', gram ''ab'', gram ''bc'', gram ''abc'']"
    by (simp add: gram_def)
  from abc_bigrams[OF k order_refl a b c, of "''body''" 0, unfolded ab bc abc]
  obtain d where r: "run example_ops (stream_calls ''body'' [''a'', ''b'', ''c''])
        (Document_new (example_config 2) 2 0) = Returned d"
    and co: "cout d = [gram ''a'', gram ''ab'', gram ''b'', gram ''bc'', gram ''c'']"
    and t: "m_terms d = {gram ''a'', gram ''b'', gram ''c'', gram ''ab'', gram ''bc''}"
    and n: "distinct [gram ''a'', gram ''b'', gram ''c'', gram ''ab'', gram ''bc'', gram ''abc''] \<longrightarrow>
         GetPostingCount d = 5 \<and> gram ''abc'' \<notin> set (cout d) \<and> gram ''abc'' \<notin> m_terms d"
    by (elim exE conjE)
  from n dist have "GetPostingCount d = 5" and "gram ''abc'' \<notin> m_terms d" by blast+
  with r co t show ?thesis by simp
qed

lemma stream_ngrams_bound_long:
  assumes "k \<le> Suc L" and "2 * n + k * (k - 1) = 2 * (L * k)"
  shows "int n = int L * int k - (int k * (int k - 1)) div 2"
proof (cases k)
  case 0
  with assms show ?thesis by simp
next
  case (Suc k')
  have ev: "even (int k * (int k - 1))" by simp
  have "int k * (int k - 1) = int (k * (k - 1))"
    using Suc by (simp add: algebra_simps)
  also have "\<dots> = 2 * int (L * k) - 2 * int n"
    using assms(2) by linarith
  finally have "int k * (int k - 1) = 2 * (int (L * k) - int n)" by simp
  then have "(int k * (int k - 1)) div 2 = int (L * k) - int n" by simp
  then show ?thesis by simp
qed

text \<open>
  C4, as amended. A freshly constructed \<open>Document\<close> with \<open>maxGramSize = k \<ge> 1\<close> and a ring
  buffer that holds at least \<open>k\<close> terms takes a complete stream of \<open>L \<ge> 1\<close> terms without an
  exception. Afterwards every unigram of the stream is in the term set, so the number of
  unique terms is at least the number of distinct unigrams; it is at most
  \<open>L * k - k * (k - 1) / 2\<close> when \<open>L \<ge> k - 1\<close>, and at most \<open>L * (L + 1) / 2\<close> when
  \<open>L \<le> k\<close> (a stream shorter than \<open>k - 1\<close> never fills a window, and the first bound
  does not hold for it).
\<close>

theorem unique_term_count_bounds:
  fixes T :: "('t, 'f) TermOps"
  assumes "1 \<le> GetMaxGramSize cfg" and "GetMaxGramSize cfg \<le> cap" and "1 \<le> length texts"
  shows "\<exists>d. run T (stream_calls name texts) (Document_new cfg cap sid) = Returned d
    \<and> set (map (\<lambda>x. Term_new T x 0 (GetDocumentFrequencyTable cfg)) texts) \<subseteq> m_terms d
    \<and> card (set (map (\<lambda>x. Term_new T x 0 (GetDocumentFrequencyTable cfg)) texts))
          \<le> GetPostingCount d
    \<and> (GetMaxGramSize cfg - 1 \<le> length texts \<longrightarrow>
          int (GetPostingCount d) \<le> int (length texts) * int (GetMaxGramSize cfg)
             - (int (GetMaxGramSize cfg) * (int (GetMaxGramSize cfg) - 1)) div 2)
    \<and> (length texts \<le> GetMaxGramSize cfg \<longrightarrow>
          GetPostingCount d \<le> (length texts * (length texts + 1)) div 2)"
proof -
  let ?k = "GetMaxGramSize cfg"
  let ?us = "map (\<lambda>x. Term_new T x 0 (GetDocumentFrequencyTable cfg)) texts"
  let ?g = "stream_ngrams (Term_AddTerm T) ?k ?us"
  from fresh_stream_result[OF assms(1,2), of T name texts sid]
  obtain d where r: "run T (stream_calls name texts) (Document_new cfg cap sid) = Returned d"
    and t: "m_terms d = set ?g"
    by blast
  have sub: "set ?us \<subseteq> m_terms d"
    unfolding t using assms(1) by (intro unigrams_in_stream_ngrams) simp
  have fin: "finite (m_terms d)" unfolding t by simp
  have lower: "card (set ?us) \<le> GetPostingCount d"
    unfolding GetPostingCount_def using sub fin by (rule card_mono[rotated])
  have le: "GetPostingCount d \<le> length ?g"
    unfolding GetPostingCount_def t by (rule card_length)
  have long: "int (GetPostingCount d) \<le> int (length texts) * int ?k - (int ?k * (int ?k - 1)) div 2"
    if "?k - 1 \<le> length texts"
  proof -
    from that have k: "?k \<le> Suc (length ?us)" by simp
    from length_stream_ngrams_long[OF k, of "Term_AddTerm T"]
    have "2 * length ?g + ?k * (?k - 1) = 2 * (length texts * ?k)" by simp
    from stream_ngrams_bound_long[OF _ this] that
    have "int (length ?g) = int (length texts) * int ?k - (int ?k * (int ?k - 1)) div 2"
      by simp
    with le show ?thesis by linarith
  qed
  have short: "GetPostingCount d \<le> (length texts * (length texts + 1)) div 2"
    if "length texts \<le> ?k"
  proof -
    from that have "?g = drain_ngrams (Term_AddTerm T) ?us"
      by (intro stream_ngrams_short) simp
    with length_drain_ngrams[of "Term_AddTerm T" ?us]
    have "2 * length ?g = length texts * (length texts + 1)" by simp
    with le show ?thesis by linarith
  qed
  from r sub lower long short show ?thesis by blast
qed

theorem unique_term_count_bounds_witness:
  "\<not> is_thrown (run example_ops (stream_calls ''body'' [''a'', ''b'', ''c''])
       (Document_new (example_config 2) 2 0))
   \<and> int (GetPostingCount (outcome_state (run example_ops
         (stream_calls ''body'' [''a'', ''b'', ''c'']) (Document_new (example_config 2) 2 0))))
       \<le> 3 * 2 - (2 * (2 - 1)) div 2
   \<and> {gram ''a'', gram ''b'', gram ''c''} \<subseteq> m_terms (outcome_state (run example_ops
         (stream_calls ''body'' [''a'', ''b'', ''c'']) (Document_new (example_config 2) 2 0)))
   \<and> GetPostingCount (outcome_state (run example_ops (stream_calls ''body'' [''a''])
         (Document_new (example_config 3) 3 0))) \<le> (1 * (1 + 1)) div 2"
proof -
  let ?cfg = "example_config 2"
  let ?texts = "[''a'', ''b'', ''c'']"
  have k1: "1 \<le> GetMaxGramSize ?cfg" and k2: "GetMaxGramSize ?cfg \<le> 2"
    by (simp_all add: example_config_def)
  have l: "1 \<le> length ?texts" by simp
  from unique_term_count_bounds[OF k1 k2 l, of example_ops "''body''" 0]
  obtain d where r: "run example_ops (stream_calls ''body'' ?texts) (Document_new ?cfg 2 0) = Returned d"
    and sub: "set (map (\<lambda>x. Term_new example_ops x 0 (GetDocumentFrequencyTable ?cfg)) ?texts) \<subseteq> m_terms d"
    and long: "GetMaxGramSize ?cfg - 1 \<le> length ?texts \<longrightarrow>
          int (GetPostingCount d) \<le> int (length ?texts) * int (GetMaxGramSize ?cfg)
             - (int (GetMaxGramSize ?cfg) * (int (GetMaxGramSize ?cfg) - 1)) div 2"
    by blast
  have k: "GetMaxGramSize ?cfg = 2" by (simp add: example_config_def)
  from long have b: "int (GetPostingCount d) \<le> 3 * 2 - (2 * (2 - 1)) div 2"
    unfolding k by simp
  from sub have s: "{gram ''a'', gram ''b'', gram ''c''} \<subseteq> m_terms d"
    by (simp add: example_ops_def example_config_def SpecTermOps_def gram_def)
  have k1': "1 \<le> GetMaxGramSize (example_config 3)"
    and k2': "GetMaxGramSize (example_config 3) \<le> 3"
    by (simp_all add: example_config_def)
  have l': "1 \<le> length [''a'']" by simp
  from unique_term_count_bounds[OF k1' k2' l', of example_ops "''body''" 0]
  obtain d' where r': "run example_ops (stream_calls ''body'' [''a''])
        (Document_new (example_config 3) 3 0) = Returned d'"
    and short: "length [''a''] \<le> GetMaxGramSize (example_config 3) \<longrightarrow>
          GetPostingCount d' \<le> (length [''a''] * (length [''a''] + 1)) div 2"
    by blast
  from short have b': "GetPostingCount d' \<le> (1 * (1 + 1)) div 2"
    by (simp add: example_config_def)
  from r b s r' b' show ?thesis by simp
qed

text \<open>
  C4 fails as stated: with \<open>maxGramSize = 3\<close> the stream of the single term \<open>"a"\<close> leaves
  one unique term, and \<open>L * k - k * (k - 1) / 2 = 1 * 3 - 3 * 2 / 2 = 0\<close>.
\<close>

theorem unique_term_count_counterexample:
  "\<not> is_thrown (run example_ops (stream_calls ''body'' [''a''])
       (Document_new (example_config 3) 3 0))
   \<and> GetPostingCount (outcome_state (run example_ops (stream_calls ''body'' [''a''])
       (Document_new (example_config 3) 3 0))) = 1
   \<and> \<not> int (GetPostingCount (outcome_state (run example_ops (stream_calls ''body'' [''a''])
       (Document_new (example_config 3) 3 0))))
       \<le> int (length [''a'']) * 3 - (3 * (3 - 1)) div 2"
proof -
  have "run example_ops (stream_calls ''body'' [''a'']) (Document_new (example_config 3) 3 0)
    = Returned \<lparr>m_maxGramSize = 3, m_docFreqTable = (\<lambda>_. 0), m_postingCount = 1,
        m_streamIsOpen = False, m_currentStreamId = 0,
        m_ringBuffer = \<lparr>rb_capacity = 3, rb_items = []\<rparr>,
        m_terms = {gram ''a''}, cout = [gram ''a'']\<rparr>"
    by (simp add: stream_calls_def Document_new_def RingBuffer_new_def example_config_def
        OpenStream_def Reset_def AddTerm_def PushBack_def GetCount_def CloseStream_def
        PurgeRingBuffer.simps IsEmpty_def ProcessNGrams_def At_def PostTerm_def
        ProcessNGrams_loop.simps PopFront_def example_ops_def SpecTermOps_def gram_def Let_def)
  then show ?thesis by (simp add: GetPostingCount_def)
qed

subsection \<open>The term set only grows\<close>

lemma ProcessNGrams_loop_terms_mono:
  "m_terms d \<subseteq> m_terms (outcome_state (ProcessNGrams_loop T n count t d))"
proof (induction T n count t d rule: ProcessNGrams_loop.induct)
  case (1 T n count t d)
  show ?case
  proof (cases "n < count")
    case False
    then show ?thesis by (subst ProcessNGrams_loop.simps) simp
  next
    case True
    show ?thesis
    proof (cases "At (m_ringBuffer d) n")
      case (Inl e)
      with True show ?thesis by (subst ProcessNGrams_loop.simps) simp
    next
      case (Inr x)
      have "m_terms d \<subseteq> m_terms (PostTerm (Term_AddTerm T t x) d)"
        by (auto simp: PostTerm_def)
      also note "1.IH"[OF True Inr refl]
      finally show ?thesis
        using True Inr by (subst ProcessNGrams_loop.simps) (simp add: Let_def)
    qed
  qed
qed

lemma ProcessNGrams_terms_mono:
  "m_terms d \<subseteq> m_terms (outcome_state (ProcessNGrams T d))"
proof (cases "At (m_ringBuffer d) 0")
  case (Inl e)
  then show ?thesis by (simp add: ProcessNGrams_def Let_def)
next
  case (Inr t0)
  have "m_terms d \<subseteq> m_terms (PostTerm t0 d)" by (auto simp: PostTerm_def)
  also note ProcessNGrams_loop_terms_mono
  finally show ?thesis using Inr by (simp add: ProcessNGrams_def Let_def)
qed

lemma PurgeRingBuffer_terms_mono:
  "m_terms d \<subseteq> m_terms (outcome_state (PurgeRingBuffer T d))"
proof (induction T d rule: PurgeRingBuffer.induct)
  case (1 T d)
  show ?case
  proof (cases "IsEmpty (m_ringBuffer d)")
    case True
    then show ?thesis by (subst PurgeRingBuffer.simps) simp
  next
    case False
    show ?thesis
    proof (cases "ProcessNGrams T d")
      case (Threw e d')
      with ProcessNGrams_terms_mono[of d T] False show ?thesis
        by (subst PurgeRingBuffer.simps) simp
    next
      case (Returned d')
      with ProcessNGrams_terms_mono[of d T] have m: "m_terms d \<subseteq> m_terms d'" by simp
      show ?thesis
      proof (cases "PopFront (m_ringBuffer d')")
        case (Inl e)
        with False Returned m show ?thesis by (subst PurgeRingBuffer.simps) simp
      next
        case (Inr rb)
        from "1.IH"[OF _ Returned Inr] False
        have "m_terms d' \<subseteq> m_terms (outcome_state (PurgeRingBuffer T (d'\<lparr>m_ringBuffer := rb\<rparr>)))"
          by simp
        with m False Returned Inr show ?thesis
          by (subst PurgeRingBuffer.simps) auto
      qed
    qed
  qed
qed

lemma OpenStream_terms: "m_terms (outcome_state (OpenStream d name)) = m_terms d"
  by (simp add: OpenStream_def)

lemma CloseStream_terms_mono: "m_terms d \<subseteq> m_terms (outcome_state (CloseStream T d))"
  using PurgeRingBuffer_terms_mono[of "d\<lparr>m_streamIsOpen := False\<rparr>" T]
  by (simp add: CloseStream_def)

lemma AddTerm_terms_mono: "m_terms d \<subseteq> m_terms (outcome_state (AddTerm T d termText))"
proof (cases "m_streamIsOpen d")
  case False
  then show ?thesis by (simp add: AddTerm_def)
next
  case True
  let ?d1 = "d\<lparr>m_postingCount := m_postingCount d + 1\<rparr>"
  let ?u = "Term_new T termText (m_currentStreamId ?d1) (m_docFreqTable ?d1)"
  show ?thesis
  proof (cases "PushBack (m_ringBuffer ?d1) ?u")
    case (Inl e)
    with True show ?thesis by (simp add: AddTerm_def Let_def)
  next
    case (Inr rb)
    let ?d2 = "?d1\<lparr>m_ringBuffer := rb\<rparr>"
    show ?thesis
    proof (cases "GetCount (m_ringBuffer ?d2) = m_maxGramSize ?d2")
      case False
      with True Inr show ?thesis by (simp add: AddTerm_def Let_def)
    next
      case full: True
      have m: "m_terms d \<subseteq> m_terms (outcome_state (ProcessNGrams T ?d2))"
        using ProcessNGrams_terms_mono[of ?d2 T] by simp
      show ?thesis
      proof (cases "ProcessNGrams T ?d2")
        case (Threw e d3)
        with True Inr full m show ?thesis by (simp add: AddTerm_def Let_def)
      next
        case (Returned d3)
        with True Inr full m show ?thesis
          by (cases "PopFront (m_ringBuffer d3)") (simp_all add: AddTerm_def Let_def)
      qed
    qed
  qed
qed

lemma do_call_terms_mono: "m_terms d \<subseteq> m_terms (outcome_state (do_call T c d))"
  by (cases c) (simp_all add: OpenStream_terms AddTerm_terms_mono CloseStream_terms_mono)

lemma run_terms_mono: "m_terms d \<subseteq> m_terms (outcome_state (run T cs d))"
proof (induction cs arbitrary: d)
  case Nil
  then show ?case by simp
next
  case (Cons c cs)
  show ?case
  proof (cases "do_call T c d")
    case (Threw e d')
    with do_call_terms_mono[of d T c] show ?thesis by simp
  next
    case (Returned d')
    with do_call_terms_mono[of d T c] have "m_terms d \<subseteq> m_terms d'" by simp
    also note Cons.IH[of d']
    finally show ?thesis using Returned by simp
  qed
qed

subsection \<open>The ring buffer under Document's usage\<close>

lemma ring_ok_Document_new:
  "1 \<le> GetMaxGramSize cfg \<Longrightarrow> GetMaxGramSize cfg \<le> cap \<Longrightarrow> ring_ok (Document_new cfg cap sid)"
  by (simp add: ring_ok_def Document_new_def RingBuffer_new_def GetCount_def)

lemma ring_ok_OpenStream:
  "ring_ok d \<Longrightarrow> OpenStream d name = Returned d' \<Longrightarrow> ring_ok d'"
  by (auto simp: ring_ok_def OpenStream_def Reset_def GetCount_def split: if_splits)

lemma AddTerm_open_returns:
  assumes "ring_ok d" and "m_streamIsOpen d"
  shows "\<exists>d'. AddTerm T d termText = Returned d' \<and> ring_ok d' \<and> m_streamIsOpen d'"
proof -
  from assms(1) have cap: "length (rb_items (m_ringBuffer d)) \<noteq> rb_capacity (m_ringBuffer d)"
    by (simp add: ring_ok_def GetCount_def)
  note r = AddTerm_result[OF assms(2) cap, of T termText, unfolded Let_def]
  let ?w = "rb_items (m_ringBuffer d) @ [Term_new T termText (m_currentStreamId d) (m_docFreqTable d)]"
  show ?thesis
  proof (cases "length ?w = m_maxGramSize d")
    case True
    with r assms show ?thesis by (simp add: ring_ok_def GetCount_def)
  next
    case False
    with r assms show ?thesis by (simp add: ring_ok_def GetCount_def)
  qed
qed

lemma AddTerm_closed_throws:
  "\<not> m_streamIsOpen d \<Longrightarrow>
   AddTerm T d termText = Threw (FatalError ''Attempting AddTerm() with no open stream.'') d"
  by (simp add: AddTerm_def)

lemma CloseStream_open_returns:
  assumes "ring_ok d" and "m_streamIsOpen d"
  shows "\<exists>d'. CloseStream T d = Returned d' \<and> ring_ok d' \<and> \<not> m_streamIsOpen d'
           \<and> IsEmpty (m_ringBuffer d')"
  using CloseStream_result[OF assms(2), of T] assms(1)
  by (simp add: ring_ok_def GetCount_def IsEmpty_def)

lemma CloseStream_closed_throws:
  "\<not> m_streamIsOpen d \<Longrightarrow>
   CloseStream T d = Threw (FatalError ''Attempting CloseStream() with no open stream.'') d"
  by (simp add: CloseStream_def)

lemma ring_ok_do_call:
  assumes "ring_ok d" and "do_call T c d = Returned d'"
  shows "ring_ok d'"
proof (cases c)
  case (Call_OpenStream name)
  with assms show ?thesis by (simp add: ring_ok_OpenStream)
next
  case (Call_AddTerm termText)
  show ?thesis
  proof (cases "m_streamIsOpen d")
    case True
    from AddTerm_open_returns[OF assms(1) True, of T termText] assms(2) Call_AddTerm
    show ?thesis by auto
  next
    case False
    from AddTerm_closed_throws[OF False, of T termText] assms(2) Call_AddTerm
    show ?thesis by simp
  qed
next
  case Call_CloseStream
  show ?thesis
  proof (cases "m_streamIsOpen d")
    case True
    from CloseStream_open_returns[OF assms(1) True, of T] assms(2) Call_CloseStream
    show ?thesis by auto
  next
    case False
    from CloseStream_closed_throws[OF False, of T] assms(2) Call_CloseStream
    show ?thesis by simp
  qed
qed

lemma ring_ok_run: "ring_ok d \<Longrightarrow> run T cs d = Returned d' \<Longrightarrow> ring_ok d'"
proof (induction cs arbitrary: d)
  case Nil
  then show ?case by simp
next
  case (Cons c cs)
  then show ?case
    by (cases "do_call T c d") (auto dest: ring_ok_do_call)
qed

text \<open>
  C6. Let a \<open>Document\<close> be constructed with \<open>1 \<le> maxGramSize \<le>\<close> the ring buffer's capacity,
  and let \<open>d\<close> be its state after any sequence of \<open>OpenStream\<close>, \<open>AddTerm\<close> and \<open>CloseStream\<close>
  calls. Then the ring buffer holds at most \<open>maxGramSize - 1\<close> terms and is not full, so
  \<open>PushBack\<close> does not fail on it. A further \<open>AddTerm\<close> either returns, again with at most
  \<open>maxGramSize - 1\<close> terms in the ring buffer, or throws the \<open>FatalError\<close> for a closed
  stream; a further \<open>CloseStream\<close> likewise. Neither ends in the ring buffer's overflow
  error nor in the failed assertion of \<open>ProcessNGrams\<close>.
\<close>

theorem ring_buffer_never_overflows:
  fixes T :: "('t, 'f) TermOps"
  assumes "1 \<le> GetMaxGramSize cfg" and "GetMaxGramSize cfg \<le> cap"
    and "run T cs (Document_new cfg cap sid) = Returned d"
  shows "GetCount (m_ringBuffer d) \<le> m_maxGramSize d - 1
    \<and> GetCount (m_ringBuffer d) < rb_capacity (m_ringBuffer d)
    \<and> (\<forall>u. PushBack (m_ringBuffer d) u \<noteq> Inl RingBufferFull)
    \<and> (\<forall>termText.
          (\<exists>d'. AddTerm T d termText = Returned d'
                \<and> GetCount (m_ringBuffer d') \<le> m_maxGramSize d' - 1)
          \<or> AddTerm T d termText =
               Threw (FatalError ''Attempting AddTerm() with no open stream.'') d)
    \<and> ((\<exists>d'. CloseStream T d = Returned d' \<and> IsEmpty (m_ringBuffer d'))
          \<or> CloseStream T d =
               Threw (FatalError ''Attempting CloseStream() with no open stream.'') d)"
proof -
  have ok: "ring_ok d"
    using ring_ok_Document_new[OF assms(1,2)] assms(3) by (rule ring_ok_run)
  then have c1: "GetCount (m_ringBuffer d) \<le> m_maxGramSize d - 1"
    and c2: "GetCount (m_ringBuffer d) < rb_capacity (m_ringBuffer d)"
    by (auto simp: ring_ok_def)
  from c2 have push: "\<forall>u. PushBack (m_ringBuffer d) u \<noteq> Inl RingBufferFull"
    by (simp add: PushBack_def)
  have add: "(\<exists>d'. AddTerm T d termText = Returned d'
                \<and> GetCount (m_ringBuffer d') \<le> m_maxGramSize d' - 1)
          \<or> AddTerm T d termText =
               Threw (FatalError ''Attempting AddTerm() with no open stream.'') d" for termText
  proof (cases "m_streamIsOpen d")
    case True
    from AddTerm_open_returns[OF ok True, of T termText]
    show ?thesis by (auto simp: ring_ok_def)
  next
    case False
    then show ?thesis by (simp add: AddTerm_closed_throws)
  qed
  have close: "(\<exists>d'. CloseStream T d = Returned d' \<and> IsEmpty (m_ringBuffer d'))
          \<or> CloseStream T d =
               Threw (FatalError ''Attempting CloseStream() with no open stream.'') d"
  proof (cases "m_streamIsOpen d")
    case True
    from CloseStream_open_returns[OF ok True, of T]
    show ?thesis by auto
  next
    case False
    then show ?thesis by (simp add: CloseStream_closed_throws)
  qed
  from c1 c2 push add close show ?thesis by blast
qed


lemma Returned_outcome_state: "\<not> is_thrown r \<Longrightarrow> r = Returned (outcome_state r)"
  by (cases r) simp_all

lemmas Document_eval =
  stream_calls_def Document_new_def RingBuffer_new_def example_config_def
  OpenStream_def Reset_def AddTerm_def PushBack_def GetCount_def CloseStream_def
  PurgeRingBuffer.simps IsEmpty_def ProcessNGrams_def At_def PostTerm_def
  ProcessNGrams_loop.simps PopFront_def example_ops_def SpecTermOps_def gram_def Let_def

theorem ring_buffer_never_overflows_witness:
  "GetCount (m_ringBuffer (outcome_state (run example_ops
      [Call_OpenStream ''body'', Call_AddTerm ''a'', Call_AddTerm ''b'', Call_AddTerm ''c'']
      (Document_new (example_config 2) 2 0)))) \<le> 2 - 1
   \<and> GetCount (m_ringBuffer (outcome_state (run example_ops
      [Call_OpenStream ''body'', Call_AddTerm ''a'', Call_AddTerm ''b'', Call_AddTerm ''c'']
      (Document_new (example_config 2) 2 0)))) < 2
   \<and> rb_items (m_ringBuffer (outcome_state (run example_ops
      [Call_OpenStream ''body'', Call_AddTerm ''a'', Call_AddTerm ''b'', Call_AddTerm ''c'']
      (Document_new (example_config 2) 2 0)))) = [gram ''c'']"
proof -
  let ?cs = "[Call_OpenStream ''body'', Call_AddTerm ''a'', Call_AddTerm ''b'', Call_AddTerm ''c'']"
  let ?r = "run example_ops ?cs (Document_new (example_config 2) 2 0)"
  have k1: "1 \<le> GetMaxGramSize (example_config 2)" and k2: "GetMaxGramSize (example_config 2) \<le> 2"
    by (simp_all add: example_config_def)
  have e: "?r = Returned \<lparr>m_maxGramSize = 2, m_docFreqTable = (\<lambda>_. 0), m_postingCount = 3,
        m_streamIsOpen = True, m_currentStreamId = 0,
        m_ringBuffer = \<lparr>rb_capacity = 2, rb_items = [gram ''c'']\<rparr>,
        m_terms = {gram ''a'', gram ''ab'', gram ''b'', gram ''bc''},
        cout = [gram ''a'', gram ''ab'', gram ''b'', gram ''bc'']\<rparr>"
    by (simp add: Document_eval) auto
  then have r: "?r = Returned (outcome_state ?r)" by simp
  from ring_buffer_never_overflows[OF k1 k2 r]
  have "GetCount (m_ringBuffer (outcome_state ?r)) \<le> m_maxGramSize (outcome_state ?r) - 1"
    and "GetCount (m_ringBuffer (outcome_state ?r)) < rb_capacity (m_ringBuffer (outcome_state ?r))"
    by blast+
  moreover have "m_maxGramSize (outcome_state ?r) = 2"
    and "rb_capacity (m_ringBuffer (outcome_state ?r)) = 2"
    and "rb_items (m_ringBuffer (outcome_state ?r)) = [gram ''c'']"
    unfolding e by simp_all
  ultimately show ?thesis by simp
qed

lemma AddTerm_full_throws:
  assumes "m_streamIsOpen d" and "GetCount (m_ringBuffer d) = rb_capacity (m_ringBuffer d)"
  shows "AddTerm T d termText =
           Threw RingBufferFull (d\<lparr>m_postingCount := m_postingCount d + 1\<rparr>)"
  using assms by (simp add: AddTerm_def PushBack_def Let_def)

lemma AddTerm_not_full_returns:
  assumes "m_streamIsOpen d" and "GetCount (m_ringBuffer d) \<noteq> rb_capacity (m_ringBuffer d)"
  shows "\<exists>d'. AddTerm T d termText = Returned d' \<and> m_streamIsOpen d'"
proof -
  from assms(2) have cap: "length (rb_items (m_ringBuffer d)) \<noteq> rb_capacity (m_ringBuffer d)"
    by (simp add: GetCount_def)
  note r = AddTerm_result[OF assms(1) cap, of T termText, unfolded Let_def]
  let ?w = "rb_items (m_ringBuffer d) @ [Term_new T termText (m_currentStreamId d) (m_docFreqTable d)]"
  show ?thesis
  proof (cases "length ?w = m_maxGramSize d")
    case True
    with r assms(1) show ?thesis by simp
  next
    case False
    with r assms(1) show ?thesis by simp
  qed
qed

text \<open>
  What the three stream operations do in any state: \<open>OpenStream\<close> and \<open>CloseStream\<close> throw
  only their \<open>FatalError\<close>, and so does \<open>AddTerm\<close> unless the ring buffer is full.
\<close>

lemma stream_operation_cases:
  fixes T :: "('t, 'f) TermOps" and d :: "('t, 'f) Document"
  shows "(is_thrown (OpenStream d name) \<longleftrightarrow> m_streamIsOpen d)
    \<and> (is_thrown (CloseStream T d) \<longleftrightarrow> \<not> m_streamIsOpen d)
    \<and> ((\<exists>m d'. AddTerm T d termText = Threw (FatalError m) d') \<longleftrightarrow> \<not> m_streamIsOpen d)
    \<and> (GetCount (m_ringBuffer d) \<noteq> rb_capacity (m_ringBuffer d) \<longrightarrow>
          (is_thrown (AddTerm T d termText) \<longleftrightarrow> \<not> m_streamIsOpen d))
    \<and> (\<forall>e d'. OpenStream d name = Threw e d' \<longrightarrow>
          d' = d \<and> e = FatalError ''Attempting OpenStream() when another stream is open.'')
    \<and> (\<forall>e d'. CloseStream T d = Threw e d' \<longrightarrow>
          d' = d \<and> e = FatalError ''Attempting CloseStream() with no open stream.'')
    \<and> (\<forall>m d'. AddTerm T d termText = Threw (FatalError m) d' \<longrightarrow>
          d' = d \<and> m = ''Attempting AddTerm() with no open stream.'')
    \<and> (GetCount (m_ringBuffer d) \<noteq> rb_capacity (m_ringBuffer d) \<longrightarrow>
          (\<forall>e d'. AddTerm T d termText = Threw e d' \<longrightarrow>
             d' = d \<and> e = FatalError ''Attempting AddTerm() with no open stream.''))
    \<and> (\<forall>d'. OpenStream d name = Returned d' \<longrightarrow> \<not> m_streamIsOpen d \<and> m_streamIsOpen d')
    \<and> (\<forall>d'. AddTerm T d termText = Returned d' \<longrightarrow> m_streamIsOpen d \<and> m_streamIsOpen d')
    \<and> (\<forall>d'. CloseStream T d = Returned d' \<longrightarrow> m_streamIsOpen d \<and> \<not> m_streamIsOpen d')"
proof -
  have open1: "is_thrown (OpenStream d name) \<longleftrightarrow> m_streamIsOpen d"
    by (simp add: OpenStream_def)
  have open2: "\<forall>e d'. OpenStream d name = Threw e d' \<longrightarrow>
      d' = d \<and> e = FatalError ''Attempting OpenStream() when another stream is open.''"
    by (auto simp: OpenStream_def split: if_splits)
  have open3: "\<forall>d'. OpenStream d name = Returned d' \<longrightarrow> \<not> m_streamIsOpen d \<and> m_streamIsOpen d'"
    by (auto simp: OpenStream_def split: if_splits)
  have close_cases: "CloseStream T d =
      (if m_streamIsOpen d then
         Returned (d\<lparr>m_streamIsOpen := False,
                 m_ringBuffer := (m_ringBuffer d)\<lparr>rb_items := []\<rparr>,
                 cout := cout d @ drain_ngrams (Term_AddTerm T) (rb_items (m_ringBuffer d)),
                 m_terms := m_terms d \<union> set (drain_ngrams (Term_AddTerm T) (rb_items (m_ringBuffer d)))\<rparr>)
       else Threw (FatalError ''Attempting CloseStream() with no open stream.'') d)"
    by (simp add: CloseStream_result CloseStream_closed_throws)
  have close1: "is_thrown (CloseStream T d) \<longleftrightarrow> \<not> m_streamIsOpen d"
    unfolding close_cases by simp
  have close2: "\<forall>e d'. CloseStream T d = Threw e d' \<longrightarrow>
      d' = d \<and> e = FatalError ''Attempting CloseStream() with no open stream.''"
    unfolding close_cases by (auto split: if_splits)
  have close3: "\<forall>d'. CloseStream T d = Returned d' \<longrightarrow> m_streamIsOpen d \<and> \<not> m_streamIsOpen d'"
    unfolding close_cases by (auto split: if_splits)
  consider (closed) "\<not> m_streamIsOpen d"
    | (full) "m_streamIsOpen d" "GetCount (m_ringBuffer d) = rb_capacity (m_ringBuffer d)"
    | (room) "m_streamIsOpen d" "GetCount (m_ringBuffer d) \<noteq> rb_capacity (m_ringBuffer d)"
    by blast
  then have add: "((\<exists>m d'. AddTerm T d termText = Threw (FatalError m) d') \<longleftrightarrow> \<not> m_streamIsOpen d)
    \<and> (GetCount (m_ringBuffer d) \<noteq> rb_capacity (m_ringBuffer d) \<longrightarrow>
          (is_thrown (AddTerm T d termText) \<longleftrightarrow> \<not> m_streamIsOpen d))
    \<and> (\<forall>m d'. AddTerm T d termText = Threw (FatalError m) d' \<longrightarrow>
          d' = d \<and> m = ''Attempting AddTerm() with no open stream.'')
    \<and> (GetCount (m_ringBuffer d) \<noteq> rb_capacity (m_ringBuffer d) \<longrightarrow>
          (\<forall>e d'. AddTerm T d termText = Threw e d' \<longrightarrow>
             d' = d \<and> e = FatalError ''Attempting AddTerm() with no open stream.''))
    \<and> (\<forall>d'. AddTerm T d termText = Returned d' \<longrightarrow> m_streamIsOpen d \<and> m_streamIsOpen d')"
  proof cases
    case closed
    then show ?thesis by (simp add: AddTerm_closed_throws)
  next
    case full
    then show ?thesis by (simp add: AddTerm_full_throws)
  next
    case room
    from AddTerm_not_full_returns[OF room, of T termText]
    obtain d' where "AddTerm T d termText = Returned d'" and "m_streamIsOpen d'" by blast
    with room show ?thesis by simp
  qed
  from open1 open2 open3 close1 close2 close3 add show ?thesis by blast
qed

text \<open>
  C5, as amended. The stream operations follow the state machine Closed, Open, Closed.
  For every \<open>Document\<close>, \<open>OpenStream\<close> throws exactly when a stream is open and
  \<open>CloseStream\<close> exactly when none is, each leaving the document as it was; a returning
  \<open>OpenStream\<close> opens the stream and a returning \<open>CloseStream\<close> closes it. For a
  \<open>Document\<close> constructed with \<open>1 \<le> maxGramSize \<le>\<close> the ring buffer's capacity, in every
  state \<open>d\<close> that \<open>OpenStream\<close>, \<open>AddTerm\<close> and \<open>CloseStream\<close> calls reach, \<open>AddTerm\<close> throws
  exactly when no stream is open, what it throws is its \<open>FatalError\<close> and leaves the
  document as it was, and a returning \<open>AddTerm\<close> leaves the stream open.
\<close>

theorem stream_state_machine_reachable:
  fixes T :: "('t, 'f) TermOps" and d :: "('t, 'f) Document"
  shows "(is_thrown (OpenStream d name) \<longleftrightarrow> m_streamIsOpen d)
    \<and> (is_thrown (CloseStream T d) \<longleftrightarrow> \<not> m_streamIsOpen d)
    \<and> (\<forall>e d'. OpenStream d name = Threw e d' \<longrightarrow>
          d' = d \<and> e = FatalError ''Attempting OpenStream() when another stream is open.'')
    \<and> (\<forall>e d'. CloseStream T d = Threw e d' \<longrightarrow>
          d' = d \<and> e = FatalError ''Attempting CloseStream() with no open stream.'')
    \<and> (\<forall>d'. OpenStream d name = Returned d' \<longrightarrow> \<not> m_streamIsOpen d \<and> m_streamIsOpen d')
    \<and> (\<forall>d'. CloseStream T d = Returned d' \<longrightarrow> m_streamIsOpen d \<and> \<not> m_streamIsOpen d')
    \<and> (1 \<le> GetMaxGramSize cfg \<and> GetMaxGramSize cfg \<le> cap
         \<and> run T cs (Document_new cfg cap sid) = Returned d \<longrightarrow>
          (is_thrown (AddTerm T d termText) \<longleftrightarrow> \<not> m_streamIsOpen d)
          \<and> (\<forall>e d'. AddTerm T d termText = Threw e d' \<longrightarrow>
                d' = d \<and> e = FatalError ''Attempting AddTerm() with no open stream.'')
          \<and> (\<forall>d'. AddTerm T d termText = Returned d' \<longrightarrow>
                m_streamIsOpen d \<and> m_streamIsOpen d'))"
proof -
  note cases = stream_operation_cases[of d name T termText]
  have room: "GetCount (m_ringBuffer d) \<noteq> rb_capacity (m_ringBuffer d)"
    if "1 \<le> GetMaxGramSize cfg \<and> GetMaxGramSize cfg \<le> cap
         \<and> run T cs (Document_new cfg cap sid) = Returned d"
  proof -
    from that have "ring_ok (Document_new cfg cap sid :: ('t, 'f) Document)"
      by (simp add: ring_ok_Document_new)
    from ring_ok_run[OF this, of T cs d] that have "ring_ok d" by simp
    then show ?thesis by (simp add: ring_ok_def)
  qed
  have add: "(is_thrown (AddTerm T d termText) \<longleftrightarrow> \<not> m_streamIsOpen d)
          \<and> (\<forall>e d'. AddTerm T d termText = Threw e d' \<longrightarrow>
                d' = d \<and> e = FatalError ''Attempting AddTerm() with no open stream.'')
          \<and> (\<forall>d'. AddTerm T d termText = Returned d' \<longrightarrow>
                m_streamIsOpen d \<and> m_streamIsOpen d')"
    if "1 \<le> GetMaxGramSize cfg \<and> GetMaxGramSize cfg \<le> cap
         \<and> run T cs (Document_new cfg cap sid) = Returned d"
    using cases room[OF that] by blast
  show ?thesis
    by (intro conjI impI) (use cases add in \<open>blast+\<close>)
qed

theorem stream_state_machine_reachable_witness:
  "AddTerm example_ops (Document_new (example_config 2) 2 0) ''a'' =
       Threw (FatalError ''Attempting AddTerm() with no open stream.'')
         (Document_new (example_config 2) 2 0)
   \<and> CloseStream example_ops (Document_new (example_config 2) 2 0) =
       Threw (FatalError ''Attempting CloseStream() with no open stream.'')
         (Document_new (example_config 2) 2 0)
   \<and> \<not> is_thrown (OpenStream
         (Document_new (example_config 2) 2 0 :: (SpecTerm, string \<Rightarrow> nat) Document) ''body'')
   \<and> m_streamIsOpen (outcome_state (run example_ops
         [Call_OpenStream ''body'', Call_AddTerm ''a''] (Document_new (example_config 2) 2 0)))
   \<and> \<not> is_thrown (AddTerm example_ops (outcome_state (run example_ops
         [Call_OpenStream ''body'', Call_AddTerm ''a''] (Document_new (example_config 2) 2 0)))
         ''b'')
   \<and> is_thrown (OpenStream (outcome_state (run example_ops
         [Call_OpenStream ''body'', Call_AddTerm ''a''] (Document_new (example_config 2) 2 0)))
         ''title'')
   \<and> \<not> is_thrown (CloseStream example_ops (outcome_state (run example_ops
         [Call_OpenStream ''body'', Call_AddTerm ''a''] (Document_new (example_config 2) 2 0))))"
proof -
  let ?new = "Document_new (example_config 2) 2 0 :: (SpecTerm, string \<Rightarrow> nat) Document"
  define d1 where "d1 = outcome_state (run example_ops
         [Call_OpenStream ''body'', Call_AddTerm ''a''] ?new)"
  have k: "1 \<le> GetMaxGramSize (example_config 2) \<and> GetMaxGramSize (example_config 2) \<le> 2"
    by (simp add: example_config_def)
  have r0: "run example_ops [] ?new = Returned ?new" by simp
  have e1: "run example_ops [Call_OpenStream ''body'', Call_AddTerm ''a''] ?new =
      Returned \<lparr>m_maxGramSize = 2, m_docFreqTable = (\<lambda>_. 0), m_postingCount = 1,
        m_streamIsOpen = True, m_currentStreamId = 0,
        m_ringBuffer = \<lparr>rb_capacity = 2, rb_items = [gram ''a'']\<rparr>,
        m_terms = {}, cout = []\<rparr>"
    by (simp add: Document_eval)
  then have r1: "run example_ops [Call_OpenStream ''body'', Call_AddTerm ''a''] ?new = Returned d1"
    by (simp add: d1_def)
  have c0: "\<not> m_streamIsOpen ?new" by (simp add: Document_new_def)
  have o1: "m_streamIsOpen d1" unfolding d1_def e1 by simp
  note m0 = stream_state_machine_reachable[of ?new "''body''" example_ops "example_config 2" 2
      "[]" 0 "''a''"]
  note m1 = stream_state_machine_reachable[of d1 "''title''" example_ops "example_config 2" 2
      "[Call_OpenStream ''body'', Call_AddTerm ''a'']" 0 "''b''"]
  from m0 k r0 c0 have "is_thrown (AddTerm example_ops ?new ''a'')" by blast
  then obtain e d' where t: "AddTerm example_ops ?new ''a'' = Threw e d'"
    by (cases "AddTerm example_ops ?new ''a''") simp_all
  with m0 k r0 have "d' = ?new \<and> e = FatalError ''Attempting AddTerm() with no open stream.''"
    by blast
  with t have a: "AddTerm example_ops ?new ''a'' =
      Threw (FatalError ''Attempting AddTerm() with no open stream.'') ?new"
    by simp
  from m0 c0 have "is_thrown (CloseStream example_ops ?new)" by blast
  then obtain e d' where t: "CloseStream example_ops ?new = Threw e d'"
    by (cases "CloseStream example_ops ?new") simp_all
  with m0 have "d' = ?new \<and> e = FatalError ''Attempting CloseStream() with no open stream.''"
    by blast
  with t have b: "CloseStream example_ops ?new =
      Threw (FatalError ''Attempting CloseStream() with no open stream.'') ?new"
    by simp
  from m0 c0 have c: "\<not> is_thrown (OpenStream ?new ''body'')" by blast
  from m1 k r1 o1 have f: "\<not> is_thrown (AddTerm example_ops d1 ''b'')" by blast
  from m1 o1 have g: "is_thrown (OpenStream d1 ''title'')" by blast
  from m1 o1 have h: "\<not> is_thrown (CloseStream example_ops d1)" by blast
  from a b c o1 f g h show ?thesis unfolding d1_def by blast
qed

text \<open>
  C5 fails as stated where the ring buffer can fill. The constructor takes any
  \<open>maxGramSize\<close>; with \<open>maxGramSize = 0\<close> no \<open>AddTerm\<close> ever finds the count equal to it, so
  nothing is popped. With a ring buffer of two slots, \<open>OpenStream\<close>, \<open>AddTerm("a")\<close>,
  \<open>AddTerm("b")\<close> leave the stream open and the ring buffer full, and \<open>AddTerm("c")\<close> then
  fails in \<open>PushBack\<close> with a stream open, after it has incremented \<open>m_postingCount\<close>.
\<close>

theorem stream_state_machine_counterexample:
  "\<not> is_thrown (run example_ops [Call_OpenStream ''body'', Call_AddTerm ''a'', Call_AddTerm ''b'']
       (Document_new (example_config 0) 2 0))
   \<and> m_streamIsOpen (outcome_state (run example_ops
       [Call_OpenStream ''body'', Call_AddTerm ''a'', Call_AddTerm ''b'']
       (Document_new (example_config 0) 2 0)))
   \<and> m_postingCount (outcome_state (run example_ops
       [Call_OpenStream ''body'', Call_AddTerm ''a'', Call_AddTerm ''b'']
       (Document_new (example_config 0) 2 0))) = 2
   \<and> is_thrown (AddTerm example_ops (outcome_state (run example_ops
       [Call_OpenStream ''body'', Call_AddTerm ''a'', Call_AddTerm ''b'']
       (Document_new (example_config 0) 2 0))) ''c'')
   \<and> m_postingCount (outcome_state (AddTerm example_ops (outcome_state (run example_ops
       [Call_OpenStream ''body'', Call_AddTerm ''a'', Call_AddTerm ''b'']
       (Document_new (example_config 0) 2 0))) ''c'')) = 3"
proof -
  have e: "run example_ops [Call_OpenStream ''body'', Call_AddTerm ''a'', Call_AddTerm ''b'']
       (Document_new (example_config 0) 2 0) =
      Returned \<lparr>m_maxGramSize = 0, m_docFreqTable = (\<lambda>_. 0), m_postingCount = 2,
        m_streamIsOpen = True, m_currentStreamId = 0,
        m_ringBuffer = \<lparr>rb_capacity = 2, rb_items = [gram ''a'', gram ''b'']\<rparr>,
        m_terms = {}, cout = []\<rparr>"
    by (simp add: Document_eval)
  show ?thesis
    unfolding e by (simp add: AddTerm_def PushBack_def GetCount_def Let_def)
qed

text \<open>
  C10. A call of \<open>OpenStream\<close> that returns has set the stream-open flag, set the current
  stream id to 0 and reset the ring buffer to empty, and has changed nothing else: the
  term set, the posting counter (and the number of unique terms) are as before. The terms
  of an earlier stream therefore stay in the set through everything that follows, and a
  term posted later that is already in the set leaves the set as it is; after a further
  complete stream the set is the union of the earlier terms and the new stream's n-grams.
\<close>

theorem OpenStream_frame:
  fixes d :: "('t, 'f) Document"
  assumes "OpenStream d name = Returned d'"
  shows "d' = d\<lparr>m_streamIsOpen := True, m_currentStreamId := 0,
                 m_ringBuffer := Reset (m_ringBuffer d)\<rparr>
    \<and> IsEmpty (m_ringBuffer d')
    \<and> m_terms d' = m_terms d \<and> m_postingCount d' = m_postingCount d
    \<and> GetPostingCount d' = GetPostingCount d \<and> cout d' = cout d
    \<and> m_maxGramSize d' = m_maxGramSize d \<and> m_docFreqTable d' = m_docFreqTable d
    \<and> (\<forall>(T :: ('t, 'f) TermOps) cs. m_terms d \<subseteq> m_terms (outcome_state (run T cs d')))
    \<and> (\<forall>t \<in> m_terms d. m_terms (PostTerm t d') = m_terms d)
    \<and> (1 \<le> m_maxGramSize d \<and> m_maxGramSize d \<le> rb_capacity (m_ringBuffer d) \<longrightarrow>
         (\<forall>(T :: ('t, 'f) TermOps) texts.
            \<exists>d''. run T (map Call_AddTerm texts @ [Call_CloseStream]) d' = Returned d''
              \<and> m_terms d'' = m_terms d \<union>
                   set (stream_ngrams (Term_AddTerm T) (m_maxGramSize d)
                     (map (\<lambda>x. Term_new T x 0 (m_docFreqTable d)) texts))))"
proof -
  from assms have c: "\<not> m_streamIsOpen d"
    and d': "d' = d\<lparr>m_streamIsOpen := True, m_currentStreamId := 0,
                    m_ringBuffer := Reset (m_ringBuffer d)\<rparr>"
    by (auto simp: OpenStream_def split: if_splits)
  have e: "IsEmpty (m_ringBuffer d')"
    by (simp add: d' Reset_def IsEmpty_def GetCount_def)
  have f: "m_terms d' = m_terms d" "m_postingCount d' = m_postingCount d"
    "GetPostingCount d' = GetPostingCount d" "cout d' = cout d"
    "m_maxGramSize d' = m_maxGramSize d" "m_docFreqTable d' = m_docFreqTable d"
    by (simp_all add: d' GetPostingCount_def)
  have mono: "\<forall>(T :: ('t, 'f) TermOps) cs. m_terms d \<subseteq> m_terms (outcome_state (run T cs d'))"
    using run_terms_mono[of d'] f(1) by simp
  have dedup: "\<forall>t \<in> m_terms d. m_terms (PostTerm t d') = m_terms d"
    using f(1) by (auto simp: PostTerm_def)
  have later: "\<exists>d''. run T (map Call_AddTerm texts @ [Call_CloseStream]) d' = Returned d''
              \<and> m_terms d'' = m_terms d \<union>
                   set (stream_ngrams (Term_AddTerm T) (m_maxGramSize d)
                     (map (\<lambda>x. Term_new T x 0 (m_docFreqTable d)) texts))"
    if k: "1 \<le> m_maxGramSize d \<and> m_maxGramSize d \<le> rb_capacity (m_ringBuffer d)"
    for T :: "('t, 'f) TermOps" and texts
  proof -
    have o: "m_streamIsOpen d'" by (simp add: d')
    have l: "length (rb_items (m_ringBuffer d')) < m_maxGramSize d'"
      using k by (simp add: d' Reset_def)
    have cp: "m_maxGramSize d' \<le> rb_capacity (m_ringBuffer d')"
      using k by (simp add: d' Reset_def)
    have i: "rb_items (m_ringBuffer d') = []" by (simp add: d' Reset_def)
    have u: "unigrams T d' texts = map (\<lambda>x. Term_new T x 0 (m_docFreqTable d)) texts"
      by (simp add: unigrams_def d')
    from AddTerms_CloseStream_result[OF o l cp, of T texts]
    show ?thesis unfolding i u f by simp
  qed
  from d' e f mono dedup later show ?thesis by blast
qed


theorem OpenStream_frame_witness:
  "\<not> is_thrown (OpenStream (outcome_state (run example_ops (stream_calls ''title'' [''a''])
        (Document_new (example_config 2) 2 0))) ''body'')
   \<and> m_terms (outcome_state (OpenStream (outcome_state (run example_ops
        (stream_calls ''title'' [''a'']) (Document_new (example_config 2) 2 0))) ''body''))
       = {gram ''a''}
   \<and> m_postingCount (outcome_state (OpenStream (outcome_state (run example_ops
        (stream_calls ''title'' [''a'']) (Document_new (example_config 2) 2 0))) ''body'')) = 1
   \<and> m_terms (outcome_state (run example_ops (stream_calls ''body'' [''a'', ''b''])
        (outcome_state (run example_ops (stream_calls ''title'' [''a''])
          (Document_new (example_config 2) 2 0)))))
       = {gram ''a'', gram ''ab'', gram ''b''}
   \<and> m_terms (PostTerm (gram ''a'') (outcome_state (OpenStream (outcome_state (run example_ops
        (stream_calls ''title'' [''a'']) (Document_new (example_config 2) 2 0))) ''body'')))
       = {gram ''a''}"
proof -
  let ?d1 = "\<lparr>m_maxGramSize = 2, m_docFreqTable = (\<lambda>_. 0), m_postingCount = 1,
        m_streamIsOpen = False, m_currentStreamId = 0,
        m_ringBuffer = \<lparr>rb_capacity = 2, rb_items = []\<rparr>,
        m_terms = {gram ''a''}, cout = [gram ''a'']\<rparr> :: (SpecTerm, string \<Rightarrow> nat) Document"
  let ?d2 = "?d1\<lparr>m_streamIsOpen := True, m_currentStreamId := 0,
                 m_ringBuffer := Reset (m_ringBuffer ?d1)\<rparr>"
  have first: "run example_ops (stream_calls ''title'' [''a''])
        (Document_new (example_config 2) 2 0) = Returned ?d1"
    by (simp add: Document_eval)
  have o: "OpenStream ?d1 ''body'' = Returned ?d2"
    by (simp add: OpenStream_def)
  note fr = OpenStream_frame[OF o]
  from fr have t: "m_terms ?d2 = m_terms ?d1" and p: "m_postingCount ?d2 = m_postingCount ?d1"
    by blast+
  have k: "1 \<le> m_maxGramSize ?d1 \<and> m_maxGramSize ?d1 \<le> rb_capacity (m_ringBuffer ?d1)"
    by simp
  from fr k have "\<forall>(T :: (SpecTerm, string \<Rightarrow> nat) TermOps) texts.
            \<exists>d''. run T (map Call_AddTerm texts @ [Call_CloseStream]) ?d2 = Returned d''
              \<and> m_terms d'' = m_terms ?d1 \<union>
                   set (stream_ngrams (Term_AddTerm T) (m_maxGramSize ?d1)
                     (map (\<lambda>x. Term_new T x 0 (m_docFreqTable ?d1)) texts))"
    by blast
  then obtain d'' where
    r: "run example_ops (map Call_AddTerm [''a'', ''b''] @ [Call_CloseStream]) ?d2 = Returned d''"
    and u: "m_terms d'' = m_terms ?d1 \<union>
                   set (stream_ngrams (Term_AddTerm example_ops) (m_maxGramSize ?d1)
                     (map (\<lambda>x. Term_new example_ops x 0 (m_docFreqTable ?d1)) [''a'', ''b'']))"
    by blast
  from u have u': "m_terms d'' = {gram ''a'', gram ''ab'', gram ''b''}"
    by (auto simp: numeral_2_eq_2 example_ops_def SpecTermOps_def gram_def)
  have second: "run example_ops (stream_calls ''body'' [''a'', ''b'']) ?d1 = Returned d''"
    using o r by (simp add: stream_calls_def)
  from fr have "\<forall>t \<in> m_terms ?d1. m_terms (PostTerm t ?d2) = m_terms ?d1"
    by blast
  then have dd: "m_terms (PostTerm (gram ''a'') ?d2) = {gram ''a''}"
    by simp
  from t p u' dd show ?thesis
    unfolding first outcome_state.simps second o by simp
qed

section \<open>Ingestor: liveness and counters\<close>

lemma Contains_Add:
  "Add docId b p loc s = Returned s' \<Longrightarrow> Contains s' x \<longleftrightarrow> x = docId \<or> Contains s x"
  by (auto simp: Add_def Contains_def split: if_splits option.splits)

lemma Add_Threw_state: "Add docId b p loc s = Threw e s' \<Longrightarrow> s' = s"
  by (auto simp: Add_def split: if_splits option.splits)

lemma Add_Returned_fresh: "Add docId b p loc s = Returned s' \<Longrightarrow> \<not> Contains s docId"
  by (auto simp: Add_def split: if_splits option.splits)

lemma Add_Returned_counters:
  "Add docId b p loc s = Returned s' \<Longrightarrow>
   m_documentCount s' = m_documentCount s + 1 \<and>
   m_totalSourceByteSize s' = m_totalSourceByteSize s + b \<and>
   postingCount s' = postingCount s + p"
  by (auto simp: Add_def split: if_splits option.splits)

lemma Contains_Delete:
  "Contains (snd (Delete docId s)) x \<longleftrightarrow> Contains s x \<and> x \<noteq> docId"
  by (auto simp: Delete_def Contains_def)

lemma Delete_counters:
  "m_totalSourceByteSize (snd (Delete docId s)) = m_totalSourceByteSize s"
  "postingCount (snd (Delete docId s)) = postingCount s"
  "m_documentCount (snd (Delete docId s)) =
     (if Contains s docId then m_documentCount s - 1 else m_documentCount s)"
  by (simp_all add: Delete_def)

lemma count_ok_Add:
  assumes "count_ok s" and "Add docId b p loc s = Returned s'"
  shows "count_ok s'"
proof -
  have "{x. Contains s' x} = insert docId {x. Contains s x}"
    using Contains_Add[OF assms(2)] by auto
  moreover have "docId \<notin> {x. Contains s x}"
    using Add_Returned_fresh[OF assms(2)] by simp
  ultimately have "card {x. Contains s' x} = Suc (card {x. Contains s x})"
    by simp
  with assms(1) Add_Returned_counters[OF assms(2)] show ?thesis
    by (simp add: count_ok_def)
qed

lemma count_ok_Delete:
  assumes "count_ok s"
  shows "count_ok (snd (Delete docId s))"
proof (cases "Contains s docId")
  case False
  with assms show ?thesis by (simp add: Delete_def)
next
  case True
  have "{x. Contains (snd (Delete docId s)) x} = {x. Contains s x} - {docId}"
    by (auto simp: Contains_Delete)
  then have "card {x. Contains (snd (Delete docId s)) x} = card {x. Contains s x} - 1"
    using True by simp
  with assms True show ?thesis
    by (simp add: count_ok_def Delete_counters)
qed

lemma live_count_positive:
  assumes "count_ok s" and "Contains s docId"
  shows "1 \<le> m_documentCount s"
proof -
  have "{x. Contains s x} \<noteq> {}" using assms(2) by auto
  then have "0 < card {x. Contains s x}" by (simp add: card_gt_0_iff)
  with assms(1) show ?thesis by (simp add: count_ok_def)
qed

lemma fold_Delete_counters:
  "m_totalSourceByteSize (fold (\<lambda>docId t. snd (Delete docId t)) ids s) = m_totalSourceByteSize s \<and>
   postingCount (fold (\<lambda>docId t. snd (Delete docId t)) ids s) = postingCount s"
  by (induction ids arbitrary: s) (simp_all add: Delete_counters)

lemma count_ok_fold_Delete:
  "count_ok s \<Longrightarrow> count_ok (fold (\<lambda>docId t. snd (Delete docId t)) ids s)"
  by (induction ids arbitrary: s) (simp_all add: count_ok_Delete)

lemma Contains_groupMembers_update [simp]:
  "Contains (s\<lparr>groupMembers := m\<rparr>) = Contains s"
  by (rule ext) (simp add: Contains_def)

lemma ExpireGroup_state:
  "outcome_state (ExpireGroup g s) = s \<or>
   (\<exists>ids. outcome_state (ExpireGroup g s) =
      (fold (\<lambda>docId t. snd (Delete docId t)) ids s)
        \<lparr>groupMembers := filter (\<lambda>(g', _). g' \<noteq> g)
           (groupMembers (fold (\<lambda>docId t. snd (Delete docId t)) ids s))\<rparr>)"
  by (auto simp: ExpireGroup_def Let_def)

lemma count_ok_step: "count_ok s \<Longrightarrow> count_ok (ingestor_step c s)"
proof (cases c)
  case (Call_Add docId b p loc)
  assume ok: "count_ok s"
  show ?thesis
  proof (cases "Add docId b p loc s")
    case (Returned s')
    with ok count_ok_Add[OF ok Returned] Call_Add show ?thesis by simp
  next
    case (Threw e s')
    with ok Add_Threw_state[OF Threw] Call_Add show ?thesis by simp
  qed
next
  case (Call_Delete docId)
  assume "count_ok s"
  with Call_Delete show ?thesis by (simp add: count_ok_Delete)
next
  case (Call_AssertFact docId factHandle v)
  assume "count_ok s"
  with Call_AssertFact show ?thesis
    by (simp add: AssertFact_def count_ok_def Contains_def)
next
  case (Call_OpenGroup g)
  assume "count_ok s"
  with Call_OpenGroup show ?thesis
    by (simp add: OpenGroup_def Let_def count_ok_def Contains_def)
next
  case Call_CloseGroup
  assume "count_ok s"
  with Call_CloseGroup show ?thesis
    by (simp add: CloseGroup_def count_ok_def Contains_def)
next
  case (Call_ExpireGroup g)
  assume ok: "count_ok s"
  from ExpireGroup_state[of g s] show ?thesis
  proof
    assume "outcome_state (ExpireGroup g s) = s"
    with ok Call_ExpireGroup show ?thesis by simp
  next
    assume "\<exists>ids. outcome_state (ExpireGroup g s) =
      (fold (\<lambda>docId t. snd (Delete docId t)) ids s)
        \<lparr>groupMembers := filter (\<lambda>(g', _). g' \<noteq> g)
           (groupMembers (fold (\<lambda>docId t. snd (Delete docId t)) ids s))\<rparr>"
    then obtain ids where e: "outcome_state (ExpireGroup g s) =
      (fold (\<lambda>docId t. snd (Delete docId t)) ids s)
        \<lparr>groupMembers := filter (\<lambda>(g', _). g' \<noteq> g)
           (groupMembers (fold (\<lambda>docId t. snd (Delete docId t)) ids s))\<rparr>" by blast
    from count_ok_fold_Delete[OF ok, of ids] show ?thesis
      unfolding Call_ExpireGroup ingestor_step.simps e by (simp add: count_ok_def)
  qed
qed

lemma count_ok_run: "count_ok s \<Longrightarrow> count_ok (ingestor_run cs s)"
  unfolding ingestor_run_def
  by (induction cs arbitrary: s) (simp_all add: count_ok_step)

lemma count_ok_new: "count_ok (Ingestor_new registered)"
  by (simp add: count_ok_def Ingestor_new_def Contains_def)

lemma counters_mono_step:
  "m_totalSourceByteSize s \<le> m_totalSourceByteSize (ingestor_step c s) \<and>
   postingCount s \<le> postingCount (ingestor_step c s)"
proof (cases c)
  case (Call_Add docId b p loc)
  show ?thesis
  proof (cases "Add docId b p loc s")
    case (Returned s')
    with Add_Returned_counters[OF Returned] Call_Add show ?thesis by simp
  next
    case (Threw e s')
    with Add_Threw_state[OF Threw] Call_Add show ?thesis by simp
  qed
next
  case (Call_Delete docId)
  then show ?thesis by (simp add: Delete_counters)
next
  case (Call_AssertFact docId factHandle v)
  then show ?thesis by (simp add: AssertFact_def)
next
  case (Call_OpenGroup g)
  then show ?thesis by (simp add: OpenGroup_def Let_def)
next
  case Call_CloseGroup
  then show ?thesis by (simp add: CloseGroup_def)
next
  case (Call_ExpireGroup g)
  from ExpireGroup_state[of g s] show ?thesis
    unfolding Call_ExpireGroup ingestor_step.simps
    by (auto simp: fold_Delete_counters)
qed

lemma counters_mono_run:
  "m_totalSourceByteSize s \<le> m_totalSourceByteSize (ingestor_run cs s) \<and>
   postingCount s \<le> postingCount (ingestor_run cs s)"
  unfolding ingestor_run_def
proof (induction cs arbitrary: s)
  case Nil
  then show ?case by simp
next
  case (Cons c cs)
  from counters_mono_step[of s c] Cons.IH[of "ingestor_step c s"]
  show ?case by (simp del: ingestor_step.simps)
qed

section \<open>Claims about Ingestor\<close>

text \<open>
  C7. \<open>Delete(id)\<close> returns true exactly when \<open>id\<close> is live at the call. Then it tombstones
  the entry and decrements \<open>documentCount\<close> (by one, without underflow, where the count is
  the number of live documents). On an absent or deleted id it returns false, raises
  nothing and changes nothing. So a second \<open>Delete(id)\<close> returns false, two calls on a live
  id return \<open>(true, false)\<close>, and \<open>Contains(id)\<close> is false after either call.
\<close>

theorem Delete_idempotent:
  "fst (Delete docId s) = Contains s docId
   \<and> (Contains s docId \<longrightarrow>
        snd (Delete docId s) = s\<lparr>m_documentMap := (m_documentMap s)(docId \<mapsto> Tombstoned),
                                  m_documentCount := m_documentCount s - 1\<rparr>
        \<and> m_documentMap (snd (Delete docId s)) docId = Some Tombstoned
        \<and> (count_ok s \<longrightarrow> m_documentCount (snd (Delete docId s)) + 1 = m_documentCount s))
   \<and> (\<not> Contains s docId \<longrightarrow> snd (Delete docId s) = s)
   \<and> \<not> Contains (snd (Delete docId s)) docId
   \<and> \<not> fst (Delete docId (snd (Delete docId s)))
   \<and> snd (Delete docId (snd (Delete docId s))) = snd (Delete docId s)
   \<and> \<not> Contains (snd (Delete docId (snd (Delete docId s)))) docId
   \<and> (Contains s docId \<longrightarrow>
        (fst (Delete docId s), fst (Delete docId (snd (Delete docId s)))) = (True, False))"
proof -
  have gone: "\<not> Contains (snd (Delete docId s)) docId"
    by (simp add: Contains_Delete)
  have ret: "fst (Delete docId t) = Contains t docId" for t
    by (simp add: Delete_def)
  have same: "snd (Delete docId t) = t" if "\<not> Contains t docId" for t
    using that by (simp add: Delete_def)
  have live: "snd (Delete docId s) = s\<lparr>m_documentMap := (m_documentMap s)(docId \<mapsto> Tombstoned),
                                  m_documentCount := m_documentCount s - 1\<rparr>"
    if "Contains s docId"
    using that by (simp add: Delete_def)
  have dec: "m_documentCount (snd (Delete docId s)) + 1 = m_documentCount s"
    if "Contains s docId" and "count_ok s"
    using live_count_positive[OF that(2,1)] that(1) by (simp add: Delete_counters)
  show ?thesis
    using gone ret[of s] ret[of "snd (Delete docId s)"] same[of s]
      same[OF gone] live dec
    by (auto simp: Delete_def)
qed

theorem Delete_idempotent_witness:
  "Contains (outcome_state (Add 7 100 5 (Some (0, 0, 0)) (Ingestor_new {}))) 7
   \<and> fst (Delete 7 (outcome_state (Add 7 100 5 (Some (0, 0, 0)) (Ingestor_new {}))))
   \<and> \<not> fst (Delete 7 (snd (Delete 7
         (outcome_state (Add 7 100 5 (Some (0, 0, 0)) (Ingestor_new {}))))))
   \<and> \<not> Contains (snd (Delete 7
         (outcome_state (Add 7 100 5 (Some (0, 0, 0)) (Ingestor_new {}))))) 7
   \<and> m_documentCount (snd (Delete 7
         (outcome_state (Add 7 100 5 (Some (0, 0, 0)) (Ingestor_new {}))))) + 1 = 1
   \<and> \<not> fst (Delete 9 (Ingestor_new {}))
   \<and> snd (Delete 9 (Ingestor_new {})) = Ingestor_new {}"
proof -
  define s where "s = outcome_state (Add 7 100 5 (Some (0, 0, 0)) (Ingestor_new {}))"
  have a: "Add 7 100 5 (Some (0, 0, 0)) (Ingestor_new {}) = Returned s"
    by (simp add: s_def Add_def Contains_def Ingestor_new_def)
  have c: "Contains s 7"
    using Contains_Add[OF a, of 7] by simp
  have ok: "count_ok s"
    using count_ok_new a by (rule count_ok_Add)
  have n: "m_documentCount s = 1"
    using Add_Returned_counters[OF a] by (simp add: Ingestor_new_def)
  note D = Delete_idempotent[of 7 s]
  from D c have 1: "fst (Delete 7 s)" by blast
  from D have 2: "\<not> fst (Delete 7 (snd (Delete 7 s)))" by blast
  from D have 3: "\<not> Contains (snd (Delete 7 s)) 7" by blast
  from D c ok have "m_documentCount (snd (Delete 7 s)) + 1 = m_documentCount s" by blast
  with n have 4: "m_documentCount (snd (Delete 7 s)) + 1 = 1" by simp
  have "\<not> Contains (Ingestor_new {}) 9"
    by (simp add: Contains_def Ingestor_new_def)
  with Delete_idempotent[of 9 "Ingestor_new {}"]
  have 5: "\<not> fst (Delete 9 (Ingestor_new {}))"
    and 6: "snd (Delete 9 (Ingestor_new {})) = Ingestor_new {}"
    by blast+
  from c 1 2 3 4 5 6 show ?thesis unfolding s_def by blast
qed

lemma Add_fresh_returns:
  "\<not> Contains s docId \<Longrightarrow> \<exists>s'. Add docId b p (Some l) s = Returned s'"
  by (simp add: Add_def)

lemma run_adds:
  assumes "distinct (map fst docs)" and "\<forall>x \<in> fst ` set docs. \<not> Contains s x"
  shows "m_documentCount (ingestor_run (map add_call docs) s) = m_documentCount s + length docs
    \<and> postingCount (ingestor_run (map add_call docs) s)
        = postingCount s + sum_list (map (\<lambda>(docId, b, p, l). p) docs)
    \<and> m_totalSourceByteSize (ingestor_run (map add_call docs) s)
        = m_totalSourceByteSize s + sum_list (map (\<lambda>(docId, b, p, l). b) docs)
    \<and> (\<forall>x. Contains (ingestor_run (map add_call docs) s) x \<longleftrightarrow>
            Contains s x \<or> x \<in> fst ` set docs)"
  using assms
proof (induction docs arbitrary: s)
  case Nil
  then show ?case by (simp add: ingestor_run_def)
next
  case (Cons doc docs)
  obtain docId b p l where doc: "doc = (docId, b, p, l)" by (cases doc) auto
  from Cons.prems(2) doc have "\<not> Contains s docId" by simp
  from Add_fresh_returns[OF this, of b p l]
  obtain s1 where a: "Add docId b p (Some l) s = Returned s1" by blast
  have c1: "Contains s1 x \<longleftrightarrow> x = docId \<or> Contains s x" for x
    by (rule Contains_Add[OF a])
  have d: "distinct (map fst docs)" using Cons.prems(1) by simp
  have f: "\<forall>x \<in> fst ` set docs. \<not> Contains s1 x"
    using Cons.prems doc c1 by auto
  have r: "ingestor_run (map add_call (doc # docs)) s = ingestor_run (map add_call docs) s1"
    using a doc by (simp add: ingestor_run_def)
  from Cons.IH[OF d f] Add_Returned_counters[OF a] c1 show ?case
    unfolding r by (auto simp: doc)
qed

lemma run_deletes:
  assumes "distinct ids" and "\<forall>x \<in> set ids. Contains s x"
  shows "m_documentCount (ingestor_run (map Call_Delete ids) s) = m_documentCount s - length ids
    \<and> postingCount (ingestor_run (map Call_Delete ids) s) = postingCount s
    \<and> m_totalSourceByteSize (ingestor_run (map Call_Delete ids) s) = m_totalSourceByteSize s
    \<and> (\<forall>x. Contains (ingestor_run (map Call_Delete ids) s) x \<longleftrightarrow>
            Contains s x \<and> x \<notin> set ids)"
  using assms
proof (induction ids arbitrary: s)
  case Nil
  then show ?case by (simp add: ingestor_run_def)
next
  case (Cons docId ids)
  let ?s1 = "snd (Delete docId s)"
  have d: "distinct ids" using Cons.prems(1) by simp
  have f: "\<forall>x \<in> set ids. Contains ?s1 x"
    using Cons.prems by (auto simp: Contains_Delete)
  have r: "ingestor_run (map Call_Delete (docId # ids)) s = ingestor_run (map Call_Delete ids) ?s1"
    by (simp add: ingestor_run_def)
  from Cons.prems(2) have "Contains s docId" by simp
  with Cons.IH[OF d f] show ?case
    unfolding r by (auto simp: Delete_counters Contains_Delete)
qed

text \<open>
  C8. Over every sequence of \<open>Ingestor\<close> calls (\<open>Add\<close>, \<open>Delete\<close>, \<open>AssertFact\<close>, \<open>OpenGroup\<close>,
  \<open>CloseGroup\<close>, \<open>ExpireGroup\<close>, failing or not) \<open>totalSourceByteSize\<close> and \<open>postingCount\<close>
  never decrease: a successful \<open>Add\<close> increases them by the document's source size and
  posting count, \<open>Delete\<close> and \<open>ExpireGroup\<close> leave them as they are. After adding documents
  with distinct ids to a new \<open>Ingestor\<close> and deleting every one of them, \<open>postingCount\<close> is
  the sum of the postings ingested, \<open>documentCount\<close> is 0 and no document is contained.
\<close>

theorem counters_never_decrease:
  "m_totalSourceByteSize s \<le> m_totalSourceByteSize (ingestor_run cs s)
   \<and> postingCount s \<le> postingCount (ingestor_run cs s)
   \<and> postingCount (snd (Delete docId s)) = postingCount s
   \<and> m_totalSourceByteSize (snd (Delete docId s)) = m_totalSourceByteSize s
   \<and> postingCount (outcome_state (ExpireGroup g s)) = postingCount s
   \<and> m_totalSourceByteSize (outcome_state (ExpireGroup g s)) = m_totalSourceByteSize s
   \<and> (\<forall>s'. Add docId b p loc s = Returned s' \<longrightarrow>
          postingCount s' = postingCount s + p
          \<and> m_totalSourceByteSize s' = m_totalSourceByteSize s + b)
   \<and> (distinct (map fst docs) \<longrightarrow>
         m_documentCount (ingestor_run (map add_call docs) (Ingestor_new registered))
           = length docs
         \<and> postingCount (ingestor_run (map Call_Delete (map fst docs))
              (ingestor_run (map add_call docs) (Ingestor_new registered)))
           = sum_list (map (\<lambda>(docId, b, p, l). p) docs)
         \<and> m_documentCount (ingestor_run (map Call_Delete (map fst docs))
              (ingestor_run (map add_call docs) (Ingestor_new registered))) = 0
         \<and> (\<forall>x. \<not> Contains (ingestor_run (map Call_Delete (map fst docs))
              (ingestor_run (map add_call docs) (Ingestor_new registered))) x))"
proof -
  have e: "postingCount (outcome_state (ExpireGroup g s)) = postingCount s
      \<and> m_totalSourceByteSize (outcome_state (ExpireGroup g s)) = m_totalSourceByteSize s"
    using ExpireGroup_state[of g s] by (auto simp: fold_Delete_counters)
  have all: "m_documentCount (ingestor_run (map add_call docs) (Ingestor_new registered))
           = length docs
         \<and> postingCount (ingestor_run (map Call_Delete (map fst docs))
              (ingestor_run (map add_call docs) (Ingestor_new registered)))
           = sum_list (map (\<lambda>(docId, b, p, l). p) docs)
         \<and> m_documentCount (ingestor_run (map Call_Delete (map fst docs))
              (ingestor_run (map add_call docs) (Ingestor_new registered))) = 0
         \<and> (\<forall>x. \<not> Contains (ingestor_run (map Call_Delete (map fst docs))
              (ingestor_run (map add_call docs) (Ingestor_new registered))) x)"
    if dist: "distinct (map fst docs)"
  proof -
    let ?s0 = "Ingestor_new registered"
    let ?s1 = "ingestor_run (map add_call docs) ?s0"
    have none: "\<forall>x \<in> fst ` set docs. \<not> Contains ?s0 x"
      by (simp add: Ingestor_new_def Contains_def)
    note A = run_adds[OF dist none]
    have c0: "\<not> Contains ?s0 x" for x by (simp add: Ingestor_new_def Contains_def)
    from A have live: "\<forall>x \<in> set (map fst docs). Contains ?s1 x" by simp
    note D = run_deletes[OF dist live]
    from A have n1: "m_documentCount ?s1 = length docs" and p1: "postingCount ?s1 =
        sum_list (map (\<lambda>(docId, b, p, l). p) docs)"
      by (simp_all add: Ingestor_new_def)
    from A c0 have c1: "Contains ?s1 x \<longleftrightarrow> x \<in> fst ` set docs" for x by simp
    from D n1 p1 c1 show ?thesis by simp
  qed
  have m: "m_totalSourceByteSize s \<le> m_totalSourceByteSize (ingestor_run cs s)"
    "postingCount s \<le> postingCount (ingestor_run cs s)"
    using counters_mono_run[of s cs] by simp_all
  have dl: "postingCount (snd (Delete docId s)) = postingCount s"
    "m_totalSourceByteSize (snd (Delete docId s)) = m_totalSourceByteSize s"
    by (simp_all add: Delete_counters)
  have ad: "\<forall>s'. Add docId b p loc s = Returned s' \<longrightarrow>
          postingCount s' = postingCount s + p
          \<and> m_totalSourceByteSize s' = m_totalSourceByteSize s + b"
    using Add_Returned_counters[of docId b p loc s] by blast
  show ?thesis
    by (intro conjI impI) (use m dl e ad all in \<open>blast+\<close>)
qed

theorem counters_never_decrease_witness:
  "postingCount (ingestor_run [Call_Delete 1, Call_Delete 2]
      (ingestor_run [Call_Add 1 100 5 (Some (0, 0, 0)), Call_Add 2 50 3 (Some (0, 0, 1))]
         (Ingestor_new {}))) = 8
   \<and> m_documentCount (ingestor_run [Call_Delete 1, Call_Delete 2]
      (ingestor_run [Call_Add 1 100 5 (Some (0, 0, 0)), Call_Add 2 50 3 (Some (0, 0, 1))]
         (Ingestor_new {}))) = 0
   \<and> m_documentCount
      (ingestor_run [Call_Add 1 100 5 (Some (0, 0, 0)), Call_Add 2 50 3 (Some (0, 0, 1))]
         (Ingestor_new {})) = 2
   \<and> postingCount (outcome_state (Add 1 100 5 (Some (0, 0, 0)) (Ingestor_new {}))) = 5
   \<and> m_totalSourceByteSize (outcome_state (Add 1 100 5 (Some (0, 0, 0)) (Ingestor_new {})))
       = 100"
proof -
  let ?docs = "[(1, 100, 5, (0, 0, 0)), (2, 50, 3, (0, 0, 1))] :: (DocId \<times> nat \<times> nat \<times> location) list"
  have d: "distinct (map fst ?docs)" by simp
  define s1 where "s1 = outcome_state (Add 1 100 5 (Some (0, 0, 0)) (Ingestor_new {}))"
  have a: "Add 1 100 5 (Some (0, 0, 0)) (Ingestor_new {}) = Returned s1"
    by (simp add: s1_def Add_def Contains_def Ingestor_new_def)
  from counters_never_decrease[of "Ingestor_new {}" "[]" 1 0 100 5 "Some (0, 0, 0)" ?docs "{}"] a
  have "postingCount s1 = postingCount (Ingestor_new {}) + 5
      \<and> m_totalSourceByteSize s1 = m_totalSourceByteSize (Ingestor_new {}) + 100"
    by blast
  then have inc: "postingCount s1 = 5 \<and> m_totalSourceByteSize s1 = 100"
    by (simp add: Ingestor_new_def)
  from counters_never_decrease[of "Ingestor_new {}" "[]" 1 0 0 0 None ?docs "{}"] d
  have "m_documentCount (ingestor_run (map add_call ?docs) (Ingestor_new {}))
           = length ?docs
         \<and> postingCount (ingestor_run (map Call_Delete (map fst ?docs))
              (ingestor_run (map add_call ?docs) (Ingestor_new {})))
           = sum_list (map (\<lambda>(docId, b, p, l). p) ?docs)
         \<and> m_documentCount (ingestor_run (map Call_Delete (map fst ?docs))
              (ingestor_run (map add_call ?docs) (Ingestor_new {}))) = 0"
    by blast
  with inc show ?thesis unfolding s1_def by simp
qed

end
